theory Spec2Isabelle
  imports Complex_Main "HOL-Library.Monad_Syntax" "HOL-Library.AList"
    "HOL-Library.List_Lexorder" "HOL-Library.Char_ord" "HOL-Library.Multiset"
begin

section \<open>The event-scheduling optimizer of solver.py\<close>

text \<open>
  The class \<open>Optimizer\<close> of solver.py builds a 0/1 linear program over three families of
  variables, hands it to an external solving engine and reads a day-by-day schedule off the
  returned assignment. Python dictionaries are association lists in insertion order; a
  subscript \<open>d[k]\<close> is \<open>getitem d k\<close>, whose value \<open>None\<close> is Python's KeyError, and every
  function that subscripts a dictionary returns an option. The solving engine is not part
  of the program: it is a parameter, a function from the problem to either an error (the
  call \<open>prob.solve\<close> raises) or a status and a value for every variable. Its values are real
  numbers here (floating-point numbers in the program), compared with the threshold 0.5 as
  the program does. The constraints are kept as the program writes them, as comparisons of
  two affine expressions. The occurrence keys are strings and the buffer is an integer, as
  the constructor's signature says.
\<close>

subsection \<open>Data\<close>

record EventInstanceEntry =
  event :: int
  day :: int
  start :: int
  end' :: int
  loc :: string

record Optimizer =
  occurrences :: "(string \<times> EventInstanceEntry) list"
  travel_distances :: "((string \<times> string) \<times> int) list"
  buffer_minutes :: int
  H :: int
  K :: "string list"
  events :: "int list"
  days :: "int list"
  locs :: "string list"
  same_day_pairs :: "(string \<times> string) list"
  M :: int

text \<open>The variables \<open>x[k]\<close>, \<open>u[d]\<close> and \<open>y[(k, m)]\<close>, one object for each key of their
  dictionary.\<close>

datatype var = X string | U int | Y string string

text \<open>Python's \<open>str\<close> of an integer, as an f-string formats a day.\<close>

fun str_nat :: "nat \<Rightarrow> string" where
  "str_nat n = (if n < 10 then [char_of (48 + n)]
                else str_nat (n div 10) @ [char_of (48 + n mod 10)])"

declare str_nat.simps [simp del]

definition str :: "int \<Rightarrow> string" where
  "str i = (if i < 0 then CHR ''-'' # str_nat (nat (- i)) else str_nat (nat i))"

text \<open>The name each variable is created with (lines 70-72): \<open>f"x_{k}"\<close>, \<open>f"u_day{d}"\<close> and
  \<open>f"y_{k}__{m}"\<close>. Different keys can give one name: the pairs \<open>(a, b__c)\<close> and
  \<open>(a__b, c)\<close> both give \<open>y_a__b__c\<close>. (The modelling library then replaces some characters
  of a name, a space among them, by an underscore, which makes more names equal.)\<close>

fun name :: "var \<Rightarrow> string" where
  "name (X k) = ''x_'' @ k"
| "name (U d) = ''u_day'' @ str d"
| "name (Y k m) = ''y_'' @ k @ ''__'' @ m"

text \<open>Affine expressions and constraints, as the overloaded operators of the modelling
  library build them; \<open>lp_value\<close> is the library's \<open>value\<close> under an assignment.\<close>

datatype lpexpr =
    Var var
  | Const int
  | Add lpexpr lpexpr
  | Sub lpexpr lpexpr
  | Scale int lpexpr

datatype LpConstraint = LE lpexpr lpexpr | GE lpexpr lpexpr | EQ lpexpr lpexpr

datatype LpStatus = Optimal | NotSolved | Infeasible | Unbounded | Undefined

record LpProblem =
  variables :: "var list"
  constraints :: "LpConstraint list"
  objective :: lpexpr

record Result =
  schedule :: "(int \<times> string list) list"
  days_used :: int
  chosen_occurrences :: "string list"
  status :: LpStatus

type_synonym assignment = "var \<Rightarrow> real"

text \<open>The exceptions: a KeyError of a subscript, and the error the call of the solving
  engine raises.\<close>

datatype error = KeyError | PulpSolverError

type_synonym solver = "LpProblem \<Rightarrow> error + LpStatus \<times> assignment"

subsection \<open>Dictionaries and loops that may raise\<close>

abbreviation getitem :: "('k \<times> 'v) list \<Rightarrow> 'k \<Rightarrow> 'v option" where
  "getitem d k \<equiv> map_of d k"

fun mapM :: "('a \<Rightarrow> 'b option) \<Rightarrow> 'a list \<Rightarrow> 'b list option" where
  "mapM f [] = Some []"
| "mapM f (x # xs) = do { y \<leftarrow> f x; ys \<leftarrow> mapM f xs; Some (y # ys) }"

fun filterM :: "('a \<Rightarrow> bool option) \<Rightarrow> 'a list \<Rightarrow> 'a list option" where
  "filterM p [] = Some []"
| "filterM p (x # xs) = do { b \<leftarrow> p x; ys \<leftarrow> filterM p xs; Some (if b then x # ys else ys) }"

fun concatM :: "('a \<Rightarrow> 'b list option) \<Rightarrow> 'a list \<Rightarrow> 'b list option" where
  "concatM f [] = Some []"
| "concatM f (x # xs) = do { ys \<leftarrow> f x; zs \<leftarrow> concatM f xs; Some (ys @ zs) }"

fun foldM :: "('s \<Rightarrow> 'a \<Rightarrow> 's option) \<Rightarrow> 's \<Rightarrow> 'a list \<Rightarrow> 's option" where
  "foldM f s [] = Some s"
| "foldM f s (x # xs) = do { s' \<leftarrow> f s x; foldM f s' xs }"

text \<open>\<open>itertools.permutations(xs, 2)\<close>: the pairs of elements at two different positions,
  in the order of the positions.\<close>

definition permutations2 :: "'a list \<Rightarrow> ('a \<times> 'a) list" where
  "permutations2 xs =
     concat (map (\<lambda>i. map (\<lambda>j. (xs ! i, xs ! j)) (filter (\<lambda>j. j \<noteq> i) [0..<length xs]))
                 [0..<length xs])"

subsection \<open>The linear program's meaning\<close>

fun lp_value :: "assignment \<Rightarrow> lpexpr \<Rightarrow> real" where
  "lp_value a (Var v) = a v"
| "lp_value a (Const c) = real_of_int c"
| "lp_value a (Add e f) = lp_value a e + lp_value a f"
| "lp_value a (Sub e f) = lp_value a e - lp_value a f"
| "lp_value a (Scale c e) = real_of_int c * lp_value a e"

definition lpSum :: "lpexpr list \<Rightarrow> lpexpr" where
  "lpSum es = foldl Add (Const 0) es"

fun satisfied :: "assignment \<Rightarrow> LpConstraint \<Rightarrow> bool" where
  "satisfied a (LE e f) = (lp_value a e \<le> lp_value a f)"
| "satisfied a (GE e f) = (lp_value a e \<ge> lp_value a f)"
| "satisfied a (EQ e f) = (lp_value a e = lp_value a f)"

definition is_binary :: "real \<Rightarrow> bool" where
  "is_binary v = (v = 0 \<or> v = 1)"

text \<open>What the solving engine promises of an assignment it reports as Optimal: every
  variable (all are declared Binary) is 0 or 1, every constraint holds, and no other such
  assignment has a smaller objective.\<close>

definition feasible :: "LpProblem \<Rightarrow> assignment \<Rightarrow> bool" where
  "feasible prob a =
     (list_all (\<lambda>v. is_binary (a v)) (variables prob) \<and> list_all (satisfied a) (constraints prob))"

definition is_optimum :: "LpProblem \<Rightarrow> assignment \<Rightarrow> bool" where
  "is_optimum prob a =
     (feasible prob a \<and>
      (\<forall>b. feasible prob b \<longrightarrow> lp_value a (objective prob) \<le> lp_value b (objective prob)))"

text \<open>The engine finds a variable again by its name, and its call raises when two variables
  of the problem have one name.\<close>

definition names_distinct :: "LpProblem \<Rightarrow> bool" where
  "names_distinct prob = distinct (map name (variables prob))"

definition refuses_shared_names :: "solver \<Rightarrow> bool" where
  "refuses_shared_names solve =
     (\<forall>prob. \<not> names_distinct prob \<longrightarrow> solve prob = Inl PulpSolverError)"

subsection \<open>Optimizer.__init__ (solver.py, lines 20-45)\<close>

definition same_day_pairs_of :: "(string \<times> EventInstanceEntry) list \<Rightarrow> (string \<times> string) list option" where
  "same_day_pairs_of occs =
     filterM (\<lambda>(k, m). do {
                ok \<leftarrow> getitem occs k;
                om \<leftarrow> getitem occs m;
                Some (day ok = day om \<and> k \<noteq> m) })
             (permutations2 (map fst occs))"

text \<open>The third argument is the optional \<open>buffer_minutes\<close>: \<open>None\<close> when the caller leaves it
  out, and then the default 60 applies. \<open>H\<close> is 60 and \<open>M\<close> is \<open>24 * self.H\<close>.\<close>

definition init ::
  "(string \<times> EventInstanceEntry) list \<Rightarrow> ((string \<times> string) \<times> int) list \<Rightarrow> int option
     \<Rightarrow> Optimizer option" where
  "init occs td buffer_arg = do {
     pairs \<leftarrow> same_day_pairs_of occs;
     Some \<lparr> occurrences = occs,
            travel_distances = td,
            buffer_minutes = (case buffer_arg of None \<Rightarrow> 60 | Some b \<Rightarrow> b),
            H = 60,
            K = map fst occs,
            events = sort (remdups (map (event \<circ> snd) occs)),
            days = sort (remdups (map (day \<circ> snd) occs)),
            locs = sort (remdups (map (loc \<circ> snd) occs)),
            same_day_pairs = pairs,
            M = 24 * 60 \<rparr> }"

subsection \<open>Optimizer.__travel_time (lines 51-55)\<close>

definition travel_time :: "Optimizer \<Rightarrow> string \<Rightarrow> string \<Rightarrow> int option" where
  "travel_time self k m = do {
     ok \<leftarrow> getitem (occurrences self) k;
     om \<leftarrow> getitem (occurrences self) m;
     Some (case getitem (travel_distances self) (loc ok, loc om) of None \<Rightarrow> 0 | Some v \<Rightarrow> v) }"

subsection \<open>Optimizer.optimize: the model (lines 67-114)\<close>

definition x_vars :: "Optimizer \<Rightarrow> (string \<times> var) list" where
  "x_vars self = map (\<lambda>k. (k, X k)) (K self)"

definition u_vars :: "Optimizer \<Rightarrow> (int \<times> var) list" where
  "u_vars self = map (\<lambda>d. (d, U d)) (days self)"

definition y_vars :: "Optimizer \<Rightarrow> ((string \<times> string) \<times> var) list" where
  "y_vars self = map (\<lambda>(k, m). ((k, m), Y k m)) (same_day_pairs self)"

text \<open>1) Exactly one occurrence per event (lines 75-76).\<close>

definition coverage :: "Optimizer \<Rightarrow> LpConstraint list option" where
  "coverage self =
     mapM (\<lambda>i. do {
             ts \<leftarrow> concatM (\<lambda>k. do {
                      ok \<leftarrow> getitem (occurrences self) k;
                      if event ok = i
                      then do { xk \<leftarrow> getitem (x_vars self) k; Some [Var xk] }
                      else Some [] })
                    (K self);
             Some (EQ (lpSum ts) (Const 1)) })
          (events self)"

text \<open>2) Activate a day when an occurrence on it is chosen (lines 79-82).\<close>

definition activation :: "Optimizer \<Rightarrow> LpConstraint list option" where
  "activation self =
     concatM (\<lambda>d. concatM (\<lambda>k. do {
                      ok \<leftarrow> getitem (occurrences self) k;
                      if day ok = d
                      then do { xk \<leftarrow> getitem (x_vars self) k;
                                ud \<leftarrow> getitem (u_vars self) d;
                                Some [LE (Var xk) (Var ud)] }
                      else Some [] })
                    (K self))
             (days self)"

text \<open>3) An ordering variable is linked to both selections (lines 85-88).\<close>

definition linkage :: "Optimizer \<Rightarrow> LpConstraint list option" where
  "linkage self =
     concatM (\<lambda>(k, m). do {
                ykm \<leftarrow> getitem (y_vars self) (k, m);
                xk \<leftarrow> getitem (x_vars self) k;
                ykm' \<leftarrow> getitem (y_vars self) (k, m);
                xm \<leftarrow> getitem (x_vars self) m;
                Some [LE (Var ykm) (Var xk), LE (Var ykm') (Var xm)] })
             (same_day_pairs self)"

text \<open>If both are chosen, one direction is 1, and at most one is (lines 91-93).\<close>

definition canonical_pairs :: "Optimizer \<Rightarrow> (string \<times> string) list option" where
  "canonical_pairs self =
     filterM (\<lambda>(a, b). if a < b
                then do { oa \<leftarrow> getitem (occurrences self) a;
                          ob \<leftarrow> getitem (occurrences self) b;
                          Some (day oa = day ob) }
                else Some False)
             (same_day_pairs self)"

definition direction :: "Optimizer \<Rightarrow> LpConstraint list option" where
  "direction self = do {
     ps \<leftarrow> canonical_pairs self;
     concatM (\<lambda>(k, m). do {
                ykm \<leftarrow> getitem (y_vars self) (k, m);
                ymk \<leftarrow> getitem (y_vars self) (m, k);
                xk \<leftarrow> getitem (x_vars self) k;
                xm \<leftarrow> getitem (x_vars self) m;
                ykm' \<leftarrow> getitem (y_vars self) (k, m);
                ymk' \<leftarrow> getitem (y_vars self) (m, k);
                Some [GE (Add (Var ykm) (Var ymk)) (Sub (Add (Var xk) (Var xm)) (Const 1)),
                      LE (Add (Var ykm') (Var ymk')) (Const 1)] })
             ps }"

text \<open>Time feasibility with big-M (lines 96-98).\<close>

definition time_feasibility :: "Optimizer \<Rightarrow> LpConstraint list option" where
  "time_feasibility self =
     concatM (\<lambda>(k, m). do {
                ok \<leftarrow> getitem (occurrences self) k;
                om \<leftarrow> getitem (occurrences self) m;
                tt \<leftarrow> travel_time self k m;
                ykm \<leftarrow> getitem (y_vars self) (k, m);
                Some [GE (Const (start om))
                         (Sub (Const (end' ok + tt + buffer_minutes self))
                              (Scale (M self) (Sub (Const 1) (Var ykm))))] })
             (same_day_pairs self)"

text \<open>The weighted objective (lines 101-114).\<close>

definition gap_cost :: "Optimizer \<Rightarrow> lpexpr option" where
  "gap_cost self =
     map_option lpSum
       (mapM (\<lambda>(k, m). do {
                ykm \<leftarrow> getitem (y_vars self) (k, m);
                om \<leftarrow> getitem (occurrences self) m;
                ok \<leftarrow> getitem (occurrences self) k;
                Some (Scale (start om - end' ok) (Var ykm)) })
             (same_day_pairs self))"

definition travel_cost :: "Optimizer \<Rightarrow> lpexpr option" where
  "travel_cost self =
     map_option lpSum
       (mapM (\<lambda>(k, m). do {
                ykm \<leftarrow> getitem (y_vars self) (k, m);
                tt \<leftarrow> travel_time self k m;
                Some (Scale tt (Var ykm)) })
             (same_day_pairs self))"

definition obj :: "Optimizer \<Rightarrow> lpexpr option" where
  "obj self = do {
     g \<leftarrow> gap_cost self;
     t \<leftarrow> travel_cost self;
     us \<leftarrow> mapM (\<lambda>d. map_option Var (getitem (u_vars self) d)) (days self);
     Some (Add (Add (Scale 1000000 (lpSum us)) (Scale 1000 g)) (Scale 1 t)) }"

definition build_problem :: "Optimizer \<Rightarrow> LpProblem option" where
  "build_problem self = do {
     c1 \<leftarrow> coverage self;
     c2 \<leftarrow> activation self;
     c3 \<leftarrow> linkage self;
     c4 \<leftarrow> direction self;
     c5 \<leftarrow> time_feasibility self;
     ob \<leftarrow> obj self;
     Some \<lparr> variables = map snd (x_vars self) @ map snd (u_vars self) @ map snd (y_vars self),
            constraints = c1 @ c2 @ c3 @ c4 @ c5,
            objective = ob \<rparr> }"

subsection \<open>Optimizer.optimize: reading the solution (lines 120-141)\<close>

definition chosen_of :: "Optimizer \<Rightarrow> assignment \<Rightarrow> string list option" where
  "chosen_of self a =
     filterM (\<lambda>k. do { xk \<leftarrow> getitem (x_vars self) k; Some (a xk > 0.5) }) (K self)"

definition todays_of :: "Optimizer \<Rightarrow> string list \<Rightarrow> int \<Rightarrow> string list option" where
  "todays_of self chosen d =
     filterM (\<lambda>k. do { ok \<leftarrow> getitem (occurrences self) k; Some (day ok = d) }) chosen"

definition count_step ::
  "Optimizer \<Rightarrow> assignment \<Rightarrow> (string \<times> nat) list \<Rightarrow> string \<times> string \<Rightarrow> (string \<times> nat) list option" where
  "count_step self a before_count = (\<lambda>(k, m).
     if (k, m) \<in> set (map fst (y_vars self))
     then do {
       ykm \<leftarrow> getitem (y_vars self) (k, m);
       if a ykm > 0.5
       then do { c \<leftarrow> getitem before_count m; Some (AList.update m (c + 1) before_count) }
       else Some before_count }
     else Some before_count)"

definition before_count_of ::
  "Optimizer \<Rightarrow> assignment \<Rightarrow> string list \<Rightarrow> (string \<times> nat) list option" where
  "before_count_of self a todays =
     foldM (count_step self a) (map (\<lambda>k. (k, 0)) todays) (permutations2 todays)"

text \<open>\<open>sorted(todays, key=...)\<close>: the keys are computed first, then a stable sort by key.\<close>

definition ordered_of :: "(string \<times> nat) list \<Rightarrow> string list \<Rightarrow> string list option" where
  "ordered_of before_count todays = do {
     keys \<leftarrow> mapM (\<lambda>kk. getitem before_count kk) todays;
     Some (map fst (sort_key snd (zip todays keys))) }"

definition schedule_step ::
  "Optimizer \<Rightarrow> assignment \<Rightarrow> string list \<Rightarrow> (int \<times> string list) list \<Rightarrow> int
     \<Rightarrow> (int \<times> string list) list option" where
  "schedule_step self a chosen sched d = do {
     todays \<leftarrow> todays_of self chosen d;
     before_count \<leftarrow> before_count_of self a todays;
     ordered \<leftarrow> ordered_of before_count todays;
     Some (if ordered \<noteq> [] then AList.update d ordered sched else sched) }"

definition days_used_of :: "Optimizer \<Rightarrow> assignment \<Rightarrow> int option" where
  "days_used_of self a =
     map_option sum_list
       (mapM (\<lambda>d. do { ud \<leftarrow> getitem (u_vars self) d; Some (if a ud > 0.5 then 1 else 0) })
             (days self))"

definition read_solution :: "Optimizer \<Rightarrow> LpStatus \<Rightarrow> assignment \<Rightarrow> Result option" where
  "read_solution self st a = do {
     chosen \<leftarrow> chosen_of self a;
     sched \<leftarrow> foldM (schedule_step self a chosen) [] (days self);
     du \<leftarrow> days_used_of self a;
     Some \<lparr> schedule = sched, days_used = du, chosen_occurrences = chosen, status = st \<rparr> }"

text \<open>The whole method: the problem is built, the engine is called (line 117), where the
  call may raise, and the solution is read off its answer. The status is not looked at.\<close>

definition optimize :: "Optimizer \<Rightarrow> solver \<Rightarrow> error + Result" where
  "optimize self solve =
     (case build_problem self of
        None \<Rightarrow> Inl KeyError
      | Some prob \<Rightarrow>
          (case solve prob of
             Inl e \<Rightarrow> Inl e
           | Inr (st, a) \<Rightarrow>
               (case read_solution self st a of
                  None \<Rightarrow> Inl KeyError
                | Some r \<Rightarrow> Inr r)))"

subsection \<open>Constructing and running, as main does (lines 199-202)\<close>

definition run ::
  "(string \<times> EventInstanceEntry) list \<Rightarrow> ((string \<times> string) \<times> int) list \<Rightarrow> int option
     \<Rightarrow> solver \<Rightarrow> error + Result" where
  "run occs td buffer_arg solve =
     (case init occs td buffer_arg of
        None \<Rightarrow> Inl KeyError
      | Some optimizer \<Rightarrow> optimize optimizer solve)"

section \<open>Derived forms used in the proofs\<close>

text \<open>
  The definitions of this section are not part of the program. They name, without the
  option wrapper, what each step of the program computes; the lemmas of the next section
  show that the program's steps return exactly these values and never \<open>None\<close>, that is,
  that no subscript of the program raises KeyError.
\<close>

subsection \<open>The values of the program's steps\<close>

text \<open>The entry stored under a key; only used for keys of the catalogue, where the
  subscript \<open>self.occurrences[k]\<close> succeeds.\<close>

definition entry :: "Optimizer \<Rightarrow> string \<Rightarrow> EventInstanceEntry" where
  "entry self k = the (getitem (occurrences self) k)"

text \<open>The value of \<open>__travel_time\<close> for two keys of the catalogue.\<close>

definition travel_val :: "Optimizer \<Rightarrow> string \<Rightarrow> string \<Rightarrow> int" where
  "travel_val self k m =
     (case getitem (travel_distances self) (loc (entry self k), loc (entry self m)) of
        None \<Rightarrow> 0 | Some v \<Rightarrow> v)"

text \<open>What the constructor establishes of the derived fields.\<close>

definition built :: "Optimizer \<Rightarrow> bool" where
  "built self \<longleftrightarrow>
     K self = map fst (occurrences self) \<and>
     events self = sort (remdups (map (event \<circ> snd) (occurrences self))) \<and>
     days self = sort (remdups (map (day \<circ> snd) (occurrences self))) \<and>
     same_day_pairs self =
       filter (\<lambda>(k, m). day (entry self k) = day (entry self m) \<and> k \<noteq> m) (permutations2 (K self)) \<and>
     M self = 1440"

text \<open>The five constraint families, the objective and the problem, as optimize
  builds them.\<close>

definition coverage_val :: "Optimizer \<Rightarrow> LpConstraint list" where
  "coverage_val self = map (\<lambda>i. EQ (lpSum (map (\<lambda>k. Var (X k)) (filter (\<lambda>k. event (entry self k) = i) (K self)))) (Const 1))
                  (events self)"

definition activation_val :: "Optimizer \<Rightarrow> LpConstraint list" where
  "activation_val self = concat (map (\<lambda>d. map (\<lambda>k. LE (Var (X k)) (Var (U d)))
                                   (filter (\<lambda>k. day (entry self k) = d) (K self)))
                          (days self))"

definition linkage_val :: "Optimizer \<Rightarrow> LpConstraint list" where
  "linkage_val self = concat (map (\<lambda>(k, m). [LE (Var (Y k m)) (Var (X k)), LE (Var (Y k m)) (Var (X m))])
                          (same_day_pairs self))"

definition canonical_val :: "Optimizer \<Rightarrow> (string \<times> string) list" where
  "canonical_val self = filter (\<lambda>(a, b). a < b \<and> day (entry self a) = day (entry self b)) (same_day_pairs self)"

definition direction_val :: "Optimizer \<Rightarrow> LpConstraint list" where
  "direction_val self = concat (map (\<lambda>(k, m).
                  [GE (Add (Var (Y k m)) (Var (Y m k))) (Sub (Add (Var (X k)) (Var (X m))) (Const 1)),
                   LE (Add (Var (Y k m)) (Var (Y m k))) (Const 1)])
                (canonical_val self))"

definition time_val :: "Optimizer \<Rightarrow> LpConstraint list" where
  "time_val self = concat (map (\<lambda>(k, m).
                  [GE (Const (start (entry self m)))
                      (Sub (Const (end' (entry self k) + travel_val self k m + buffer_minutes self))
                           (Scale (M self) (Sub (Const 1) (Var (Y k m)))))])
                (same_day_pairs self))"

definition obj_val :: "Optimizer \<Rightarrow> lpexpr" where
  "obj_val self =
     Add (Add (Scale 1000000 (lpSum (map (\<lambda>d. Var (U d)) (days self))))
              (Scale 1000 (lpSum (map (\<lambda>(k, m). Scale (start (entry self m) - end' (entry self k)) (Var (Y k m)))
                                      (same_day_pairs self)))))
         (Scale 1 (lpSum (map (\<lambda>(k, m). Scale (travel_val self k m) (Var (Y k m))) (same_day_pairs self))))"

definition problem_val :: "Optimizer \<Rightarrow> LpProblem" where
  "problem_val self = \<lparr> variables = map X (K self) @ map U (days self) @ map (\<lambda>(k, m). Y k m) (same_day_pairs self),
               constraints = coverage_val self @ activation_val self @ linkage_val self @ direction_val self @ time_val self,
               objective = obj_val self \<rparr>"

text \<open>The chosen keys, and the loop over the pairs of a day's chosen keys: a pair counts
  when its ordering variable exists and is above the threshold; \<open>count_val\<close> is the final
  \<open>before_count\<close> of a key.\<close>

definition chosen_val :: "Optimizer \<Rightarrow> assignment \<Rightarrow> string list" where
  "chosen_val self a = filter (\<lambda>k. a (X k) > 0.5) (K self)"

definition hit :: "Optimizer \<Rightarrow> assignment \<Rightarrow> string \<times> string \<Rightarrow> bool" where
  "hit self a p \<longleftrightarrow> p \<in> set (same_day_pairs self) \<and> a (Y (fst p) (snd p)) > 0.5"

definition hits :: "Optimizer \<Rightarrow> assignment \<Rightarrow> (string \<times> string) list \<Rightarrow> string \<Rightarrow> nat" where
  "hits self a ps m = length (filter (\<lambda>p. snd p = m \<and> hit self a p) ps)"

definition count_val :: "Optimizer \<Rightarrow> assignment \<Rightarrow> string list \<Rightarrow> string \<Rightarrow> nat" where
  "count_val self a todays m = hits self a (permutations2 todays) m"

text \<open>A day's chosen keys, their sorted list, the schedule and days_used.\<close>

definition todays_val :: "Optimizer \<Rightarrow> assignment \<Rightarrow> int \<Rightarrow> string list" where
  "todays_val self a d = filter (\<lambda>k. day (entry self k) = d) (chosen_val self a)"

definition ordered_val :: "Optimizer \<Rightarrow> assignment \<Rightarrow> int \<Rightarrow> string list" where
  "ordered_val self a d = sort_key (count_val self a (todays_val self a d)) (todays_val self a d)"

definition schedule_val :: "Optimizer \<Rightarrow> assignment \<Rightarrow> (int \<times> string list) list" where
  "schedule_val self a = map (\<lambda>d. (d, ordered_val self a d)) (filter (\<lambda>d. ordered_val self a d \<noteq> []) (days self))"

definition days_used_val :: "Optimizer \<Rightarrow> assignment \<Rightarrow> int" where
  "days_used_val self a = (\<Sum>d\<leftarrow>days self. if a (U d) > 0.5 then 1 else 0)"

subsection \<open>Predicates of the claims\<close>

text \<open>An occurrence key lies on a day, or belongs to an event, when the catalogue has it
  with that day, or that event.\<close>

definition on_day :: "(string \<times> EventInstanceEntry) list \<Rightarrow> int \<Rightarrow> string \<Rightarrow> bool" where
  "on_day occs d k = (case getitem occs k of None \<Rightarrow> False | Some e \<Rightarrow> day e = d)"

definition on_event :: "(string \<times> EventInstanceEntry) list \<Rightarrow> int \<Rightarrow> string \<Rightarrow> bool" where
  "on_event occs i k = (case getitem occs k of None \<Rightarrow> False | Some e \<Rightarrow> event e = i)"

text \<open>The active (resolved) before relation of an assignment: the ordering variable of
  two different occurrences is above the threshold. It is a strict order on a list of keys
  when it is transitive and asymmetric there.\<close>

definition before_active :: "assignment \<Rightarrow> string \<Rightarrow> string \<Rightarrow> bool" where
  "before_active a k m \<longleftrightarrow> k \<noteq> m \<and> a (Y k m) > 0.5"

definition strict_order_on :: "assignment \<Rightarrow> string list \<Rightarrow> bool" where
  "strict_order_on a ts \<longleftrightarrow>
     (\<forall>x \<in> set ts. \<forall>y \<in> set ts. \<forall>z \<in> set ts.
         before_active a x y \<and> before_active a y z \<longrightarrow> before_active a x z) \<and>
     (\<forall>x \<in> set ts. \<forall>y \<in> set ts. before_active a x y \<longrightarrow> \<not> before_active a y x)"

subsection \<open>The extraction in the spec's words (section 4.5)\<close>

text \<open>Following the spec's words: chosen is the set of keys whose select value is above
  0.5, in key order; todays is chosen restricted to the occurrences of day d;
  predecessorCount[k] is the number of other members m of todays whose \<open>before[m,k]\<close> is
  active; the day's order is todays sorted ascending by predecessorCount with a stable
  sort.\<close>

definition chosen_spec :: "assignment \<Rightarrow> string list \<Rightarrow> string list" where
  "chosen_spec a keys = filter (\<lambda>k. a (X k) > 0.5) keys"

definition todays_spec :: "(string \<times> EventInstanceEntry) list \<Rightarrow> assignment \<Rightarrow> int \<Rightarrow> string list" where
  "todays_spec occs a d = filter (on_day occs d) (chosen_spec a (map fst occs))"

definition predecessorCount_spec :: "assignment \<Rightarrow> string list \<Rightarrow> string \<Rightarrow> nat" where
  "predecessorCount_spec a todays k = card {m \<in> set todays. before_active a m k}"

definition order_spec :: "(string \<times> EventInstanceEntry) list \<Rightarrow> assignment \<Rightarrow> int \<Rightarrow> string list" where
  "order_spec occs a d =
     sort_key (predecessorCount_spec a (todays_spec occs a d)) (todays_spec occs a d)"

subsection \<open>Concrete inputs\<close>

text \<open>Two events on one day, 100 minutes apart, with 25 minutes of travel; the engine
  answers Optimal with the order a, b.\<close>

definition ex_occs :: "(string \<times> EventInstanceEntry) list" where
  "ex_occs = [(''a'', \<lparr>event = 1, day = 0, start = 540, end' = 600, loc = ''A''\<rparr>),
              (''b'', \<lparr>event = 2, day = 0, start = 700, end' = 760, loc = ''B''\<rparr>)]"

definition ex_travel :: "((string \<times> string) \<times> int) list" where
  "ex_travel = [((''A'', ''B''), 25)]"

definition ex_self :: Optimizer where
  "ex_self = \<lparr> occurrences = ex_occs, travel_distances = ex_travel, buffer_minutes = 60, H = 60,
                K = [''a'', ''b''], events = [1, 2], days = [0], locs = [''A'', ''B''],
                same_day_pairs = [(''a'', ''b''), (''b'', ''a'')], M = 1440 \<rparr>"

definition ex_asg :: assignment where
  "ex_asg = (\<lambda>v. if v = X ''a'' \<or> v = X ''b'' \<or> v = U 0 \<or> v = Y ''a'' ''b'' then 1 else 0)"

definition ex_solve :: solver where
  "ex_solve = (\<lambda>prob. Inr (Optimal, ex_asg))"

definition ex_result :: Result where
  "ex_result = \<lparr> schedule = [(0, [''a'', ''b''])], days_used = 1,
                  chosen_occurrences = [''a'', ''b''], status = Optimal \<rparr>"

text \<open>One event with one occurrence; the engine answers Optimal.\<close>

definition one_occs :: "(string \<times> EventInstanceEntry) list" where
  "one_occs = [(''a'', \<lparr>event = 1, day = 0, start = 540, end' = 600, loc = ''A''\<rparr>)]"

definition one_self :: Optimizer where
  "one_self = \<lparr> occurrences = one_occs, travel_distances = [], buffer_minutes = 60, H = 60,
                 K = [''a''], events = [1], days = [0], locs = [''A''],
                 same_day_pairs = [], M = 1440 \<rparr>"

definition one_asg :: assignment where
  "one_asg = (\<lambda>v. if v = X ''a'' \<or> v = U 0 then 1 else 0)"

definition one_solve :: solver where
  "one_solve = (\<lambda>prob. Inr (Optimal, one_asg))"

definition one_result :: Result where
  "one_result = \<lparr> schedule = [(0, [''a''])], days_used = 1,
                   chosen_occurrences = [''a''], status = Optimal \<rparr>"

text \<open>Two events whose only occurrences clash (same day, time and place). The engine
  answers Infeasible: once leaving every variable at 1, once leaving only the day variable
  at 1.\<close>

definition clash_occs :: "(string \<times> EventInstanceEntry) list" where
  "clash_occs = [(''a'', \<lparr>event = 1, day = 0, start = 540, end' = 600, loc = ''A''\<rparr>),
                 (''b'', \<lparr>event = 2, day = 0, start = 540, end' = 600, loc = ''A''\<rparr>)]"

definition clash_self :: Optimizer where
  "clash_self = \<lparr> occurrences = clash_occs, travel_distances = [], buffer_minutes = 60, H = 60,
                   K = [''a'', ''b''], events = [1, 2], days = [0], locs = [''A''],
                   same_day_pairs = [(''a'', ''b''), (''b'', ''a'')], M = 1440 \<rparr>"

definition clash_solve :: solver where
  "clash_solve = (\<lambda>prob. Inr (Infeasible, (\<lambda>v. 1)))"

definition clash_result :: Result where
  "clash_result = \<lparr> schedule = [(0, [''a'', ''b''])], days_used = 1,
                     chosen_occurrences = [''a'', ''b''], status = Infeasible \<rparr>"

definition idle_solve :: solver where
  "idle_solve = (\<lambda>prob. Inr (Infeasible, (\<lambda>v. if v = U 0 then 1 else 0)))"

definition idle_result :: Result where
  "idle_result = \<lparr> schedule = [], days_used = 1, chosen_occurrences = [], status = Infeasible \<rparr>"

text \<open>An occurrence that ends before it starts.\<close>

definition bad_occs :: "(string \<times> EventInstanceEntry) list" where
  "bad_occs = [(''a'', \<lparr>event = 1, day = 0, start = 600, end' = 540, loc = ''A''\<rparr>)]"

definition bad_solve :: solver where
  "bad_solve = (\<lambda>prob. Inr (Optimal, (\<lambda>v. 1)))"

definition bad_result :: Result where
  "bad_result = \<lparr> schedule = [(0, [''a''])], days_used = 1,
                   chosen_occurrences = [''a''], status = Optimal \<rparr>"

text \<open>Four occurrences on one day whose keys give two ordering variables one name, and an
  engine that refuses such a problem.\<close>

definition twin_occs :: "(string \<times> EventInstanceEntry) list" where
  "twin_occs = [(''a'', \<lparr>event = 1, day = 0, start = 0, end' = 10, loc = ''A''\<rparr>),
                (''a__b'', \<lparr>event = 2, day = 0, start = 100, end' = 110, loc = ''A''\<rparr>),
                (''b__c'', \<lparr>event = 3, day = 0, start = 200, end' = 210, loc = ''A''\<rparr>),
                (''c'', \<lparr>event = 4, day = 0, start = 300, end' = 310, loc = ''A''\<rparr>)]"

definition twin_solve :: solver where
  "twin_solve = (\<lambda>prob. if names_distinct prob then Inr (NotSolved, (\<lambda>v. 0))
                         else Inl PulpSolverError)"

text \<open>Three occurrences of length zero at the same minute, with travel from A to C only;
  the engine answers Optimal with the cyclic order a before b before c before a.\<close>

definition zero_occs :: "(string \<times> EventInstanceEntry) list" where
  "zero_occs = [(''a'', \<lparr>event = 1, day = 0, start = 100, end' = 100, loc = ''A''\<rparr>),
                (''b'', \<lparr>event = 2, day = 0, start = 100, end' = 100, loc = ''B''\<rparr>),
                (''c'', \<lparr>event = 3, day = 0, start = 100, end' = 100, loc = ''C''\<rparr>)]"

definition zero_travel :: "((string \<times> string) \<times> int) list" where
  "zero_travel = [((''A'', ''C''), 1000)]"

definition zero_self :: Optimizer where
  "zero_self = \<lparr> occurrences = zero_occs, travel_distances = zero_travel, buffer_minutes = 0, H = 60,
                  K = [''a'', ''b'', ''c''], events = [1, 2, 3], days = [0], locs = [''A'', ''B'', ''C''],
                  same_day_pairs = [(''a'', ''b''), (''a'', ''c''), (''b'', ''a''),
                                    (''b'', ''c''), (''c'', ''a''), (''c'', ''b'')],
                  M = 1440 \<rparr>"

definition zero_asg :: assignment where
  "zero_asg = (\<lambda>v. if v = X ''a'' \<or> v = X ''b'' \<or> v = X ''c'' \<or> v = U 0 \<or>
                       v = Y ''a'' ''b'' \<or> v = Y ''b'' ''c'' \<or> v = Y ''c'' ''a''
                    then 1 else 0)"

definition zero_solve :: solver where
  "zero_solve = (\<lambda>prob. Inr (Optimal, zero_asg))"

definition zero_result :: Result where
  "zero_result = \<lparr> schedule = [(0, [''a'', ''b'', ''c''])], days_used = 1,
                    chosen_occurrences = [''a'', ''b'', ''c''], status = Optimal \<rparr>"

text \<open>A late and an early occurrence on one day.\<close>

definition late_occs :: "(string \<times> EventInstanceEntry) list" where
  "late_occs = [(''late'', \<lparr>event = 1, day = 0, start = 1380, end' = 1410, loc = ''A''\<rparr>),
                (''early'', \<lparr>event = 2, day = 0, start = 0, end' = 20, loc = ''B''\<rparr>)]"

definition late_travel :: "((string \<times> string) \<times> int) list" where
  "late_travel = [((''A'', ''B''), 25)]"

definition late_self :: Optimizer where
  "late_self = \<lparr> occurrences = late_occs, travel_distances = late_travel, buffer_minutes = 60, H = 60,
                  K = [''late'', ''early''], events = [1, 2], days = [0], locs = [''A'', ''B''],
                  same_day_pairs = [(''late'', ''early''), (''early'', ''late'')], M = 1440 \<rparr>"

section \<open>Lemmas\<close>

subsection \<open>Loops that do not raise, and the value of a sum\<close>

lemma mapM_Some:
  "(\<And>x. x \<in> set xs \<Longrightarrow> f x = Some (g x)) \<Longrightarrow> mapM f xs = Some (map g xs)"
  by (induction xs) simp_all

lemma filterM_Some:
  "(\<And>x. x \<in> set xs \<Longrightarrow> p x = Some (q x)) \<Longrightarrow> filterM p xs = Some (filter q xs)"
  by (induction xs) simp_all

lemma concatM_Some:
  "(\<And>x. x \<in> set xs \<Longrightarrow> f x = Some (g x)) \<Longrightarrow> concatM f xs = Some (concat (map g xs))"
  by (induction xs) simp_all

lemma concat_map_if_single:
  "concat (map (\<lambda>x. if P x then [f x] else []) xs) = map f (filter P xs)"
  by (induction xs) simp_all

lemma lp_value_foldl_Add:
  "lp_value a (foldl Add e es) = lp_value a e + sum_list (map (lp_value a) es)"
  by (induction es arbitrary: e) simp_all

lemma lp_value_lpSum: "lp_value a (lpSum es) = sum_list (map (lp_value a) es)"
  by (simp add: lpSum_def lp_value_foldl_Add)

subsection \<open>Pairs of positions\<close>

lemma set_permutations2:
  "set (permutations2 xs) = {(xs ! i, xs ! j) | i j. i < length xs \<and> j < length xs \<and> i \<noteq> j}"
  unfolding permutations2_def by (auto simp del: upt_Suc) blast

lemma permutations2_sym: "(a, b) \<in> set (permutations2 xs) \<Longrightarrow> (b, a) \<in> set (permutations2 xs)"
  unfolding set_permutations2 by blast

lemma permutations2_mem: "(a, b) \<in> set (permutations2 xs) \<Longrightarrow> a \<in> set xs \<and> b \<in> set xs"
  unfolding set_permutations2 by auto

lemma permutations2_product:
  "permutations2 xs =
     map (\<lambda>(i, j). (xs ! i, xs ! j)) (filter (\<lambda>(i, j). j \<noteq> i) (List.product [0..<length xs] [0..<length xs]))"
proof -
  have "\<And>is js. concat (map (\<lambda>i. map (\<lambda>j. (xs ! i, xs ! j)) (filter (\<lambda>j. j \<noteq> i) js)) is)
        = map (\<lambda>(i, j). (xs ! i, xs ! j)) (filter (\<lambda>(i, j). j \<noteq> i) (List.product is js))"
  proof -
    fix "is" js :: "nat list"
    show "concat (map (\<lambda>i. map (\<lambda>j. (xs ! i, xs ! j)) (filter (\<lambda>j. j \<noteq> i) js)) is)
        = map (\<lambda>(i, j). (xs ! i, xs ! j)) (filter (\<lambda>(i, j). j \<noteq> i) (List.product is js))"
      by (induction "is") (simp_all add: filter_map comp_def)
  qed
  then show ?thesis unfolding permutations2_def by blast
qed

lemma set_permutations2_distinct:
  assumes "distinct xs"
  shows "set (permutations2 xs) = {(a, b). a \<in> set xs \<and> b \<in> set xs \<and> a \<noteq> b}"
proof (rule set_eqI)
  fix p :: "'a \<times> 'a"
  obtain a b where p: "p = (a, b)" by (cases p)
  have "(a, b) \<in> set (permutations2 xs) \<longleftrightarrow> a \<in> set xs \<and> b \<in> set xs \<and> a \<noteq> b"
  proof
    assume "(a, b) \<in> set (permutations2 xs)"
    then obtain i j where ij: "a = xs ! i" "b = xs ! j" "i < length xs" "j < length xs" "i \<noteq> j"
      unfolding set_permutations2 by blast
    then have "a \<noteq> b" using assms by (simp add: nth_eq_iff_index_eq)
    with ij show "a \<in> set xs \<and> b \<in> set xs \<and> a \<noteq> b" by simp
  next
    assume h: "a \<in> set xs \<and> b \<in> set xs \<and> a \<noteq> b"
    then obtain i j where "i < length xs" "xs ! i = a" "j < length xs" "xs ! j = b"
      by (auto simp: in_set_conv_nth)
    moreover from this h have "i \<noteq> j" by blast
    ultimately show "(a, b) \<in> set (permutations2 xs)"
      unfolding set_permutations2 by blast
  qed
  then show "p \<in> set (permutations2 xs) \<longleftrightarrow> p \<in> {(a, b). a \<in> set xs \<and> b \<in> set xs \<and> a \<noteq> b}"
    by (simp add: p)
qed

lemma distinct_permutations2:
  assumes "distinct xs"
  shows "distinct (permutations2 xs)"
proof -
  let ?ps = "filter (\<lambda>(i, j). j \<noteq> i) (List.product [0..<length xs] [0..<length xs])"
  have d: "distinct ?ps" by (simp add: distinct_product)
  have "inj_on (\<lambda>(i, j). (xs ! i, xs ! j)) (set ?ps)"
  proof (rule inj_onI)
    fix p q assume "p \<in> set ?ps" "q \<in> set ?ps"
      and e: "(case p of (i, j) \<Rightarrow> (xs ! i, xs ! j)) = (case q of (i, j) \<Rightarrow> (xs ! i, xs ! j))"
    then have "fst p < length xs" "snd p < length xs" "fst q < length xs" "snd q < length xs"
      by (auto simp del: upt_Suc)
    moreover from e have "xs ! fst p = xs ! fst q" "xs ! snd p = xs ! snd q"
      by (simp_all add: case_prod_beta)
    ultimately have "fst p = fst q" "snd p = snd q"
      using assms by (simp_all add: nth_eq_iff_index_eq)
    then show "p = q" by (simp add: prod_eq_iff)
  qed
  with d show ?thesis
    unfolding permutations2_product by (simp add: distinct_map del: upt_Suc)
qed

subsection \<open>The constructor\<close>

lemma getitem_key: "k \<in> set (map fst d) \<Longrightarrow> \<exists>v. getitem d k = Some v"
  by (cases "map_of d k") (auto simp: map_of_eq_None_iff)

lemma getitem_comprehension:
  "getitem (map (\<lambda>k. (k, f k)) ks) k = (if k \<in> set ks then Some (f k) else None)"
  by (induction ks) auto

lemma same_day_pairs_of_Some:
  "same_day_pairs_of occs =
     Some (filter (\<lambda>(k, m). day (the (getitem occs k)) = day (the (getitem occs m)) \<and> k \<noteq> m)
                  (permutations2 (map fst occs)))"
  unfolding same_day_pairs_of_def
proof (rule filterM_Some)
  fix p assume pm: "p \<in> set (permutations2 (map fst occs))"
  obtain k m where p: "p = (k, m)" by (cases p)
  with pm have km: "k \<in> set (map fst occs)" "m \<in> set (map fst occs)"
    using permutations2_mem[of k m "map fst occs"] by simp_all
  obtain ok where "getitem occs k = Some ok" using getitem_key[OF km(1)] by blast
  moreover obtain om where "getitem occs m = Some om" using getitem_key[OF km(2)] by blast
  ultimately show "(case p of (k, m) \<Rightarrow> do { ok \<leftarrow> getitem occs k; om \<leftarrow> getitem occs m; Some (day ok = day om \<and> k \<noteq> m) })
     = Some (case p of (k, m) \<Rightarrow> day (the (getitem occs k)) = day (the (getitem occs m)) \<and> k \<noteq> m)"
    by (simp add: p)
qed

lemma init_Some:
  "init occs td b =
     Some \<lparr> occurrences = occs,
            travel_distances = td,
            buffer_minutes = (case b of None \<Rightarrow> 60 | Some v \<Rightarrow> v),
            H = 60,
            K = map fst occs,
            events = sort (remdups (map (event \<circ> snd) occs)),
            days = sort (remdups (map (day \<circ> snd) occs)),
            locs = sort (remdups (map (loc \<circ> snd) occs)),
            same_day_pairs = filter (\<lambda>(k, m). day (the (getitem occs k)) = day (the (getitem occs m)) \<and> k \<noteq> m)
                  (permutations2 (map fst occs)),
            M = 24 * 60 \<rparr>"
  by (simp add: init_def same_day_pairs_of_Some)

lemma init_built: "init occs td b = Some self \<Longrightarrow> built self \<and> occurrences self = occs \<and> travel_distances self = td
   \<and> buffer_minutes self = (case b of None \<Rightarrow> 60 | Some v \<Rightarrow> v)"
  unfolding init_Some by (auto simp: built_def entry_def)

lemma built_entry: "built self \<Longrightarrow> k \<in> set (K self) \<Longrightarrow> getitem (occurrences self) k = Some (entry self k)"
  unfolding entry_def built_def using getitem_key[of k "occurrences self"] by auto

lemma built_pair_mem:
  "built self \<Longrightarrow> (k, m) \<in> set (same_day_pairs self) \<Longrightarrow> k \<in> set (K self) \<and> m \<in> set (K self)"
  unfolding built_def using permutations2_mem[of k m "K self"] by auto

lemma built_pair_sym:
  "built self \<Longrightarrow> (k, m) \<in> set (same_day_pairs self) \<Longrightarrow> (m, k) \<in> set (same_day_pairs self)"
  unfolding built_def using permutations2_sym[of k m "K self"] by auto

lemma built_pair_day:
  "built self \<Longrightarrow> (k, m) \<in> set (same_day_pairs self) \<Longrightarrow> day (entry self k) = day (entry self m) \<and> k \<noteq> m"
  unfolding built_def by auto

lemma built_pairs_distinct_iff:
  "built self \<Longrightarrow> distinct (K self) \<Longrightarrow>
   (k, m) \<in> set (same_day_pairs self) \<longleftrightarrow>
     k \<in> set (K self) \<and> m \<in> set (K self) \<and> k \<noteq> m \<and> day (entry self k) = day (entry self m)"
  unfolding built_def using set_permutations2_distinct[of "K self"] by auto

lemma built_day_mem: "built self \<Longrightarrow> k \<in> set (K self) \<Longrightarrow> day (entry self k) \<in> set (days self)"
proof -
  assume b: "built self" and k: "k \<in> set (K self)"
  then have "getitem (occurrences self) k = Some (entry self k)" by (rule built_entry)
  then have "(k, entry self k) \<in> set (occurrences self)" by (rule map_of_SomeD)
  then have "day (snd (k, entry self k)) \<in> (day \<circ> snd) ` set (occurrences self)"
    unfolding comp_def by (rule imageI)
  with b show ?thesis by (simp add: built_def)
qed

lemma built_days_distinct: "built self \<Longrightarrow> distinct (days self)"
  by (simp add: built_def)

lemma x_lookup: "k \<in> set (K self) \<Longrightarrow> getitem (x_vars self) k = Some (X k)"
  by (simp add: x_vars_def getitem_comprehension)

lemma u_lookup: "d \<in> set (days self) \<Longrightarrow> getitem (u_vars self) d = Some (U d)"
  by (simp add: u_vars_def getitem_comprehension)

lemma y_vars_alt: "y_vars self = map (\<lambda>p. (p, Y (fst p) (snd p))) (same_day_pairs self)"
  by (simp add: y_vars_def case_prod_beta)

lemma y_lookup: "(k, m) \<in> set (same_day_pairs self) \<Longrightarrow> getitem (y_vars self) (k, m) = Some (Y k m)"
  by (simp add: y_vars_alt getitem_comprehension)

lemma y_keys: "set (map fst (y_vars self)) = set (same_day_pairs self)"
  by (simp add: y_vars_alt comp_def)

lemma travel_time_Some:
  "built self \<Longrightarrow> k \<in> set (K self) \<Longrightarrow> m \<in> set (K self) \<Longrightarrow> travel_time self k m = Some (travel_val self k m)"
  by (simp add: travel_time_def travel_val_def built_entry)

subsection \<open>The constraint families are built without error\<close>

lemma coverage_Some: assumes "built self" shows "coverage self = Some (coverage_val self)"
  unfolding coverage_def coverage_val_def
proof (rule mapM_Some)
  fix i
  have "concatM (\<lambda>k. do {
                      ok \<leftarrow> getitem (occurrences self) k;
                      if event ok = i
                      then do { xk \<leftarrow> getitem (x_vars self) k; Some [Var xk] }
                      else Some [] }) (K self)
        = Some (concat (map (\<lambda>k. if event (entry self k) = i then [Var (X k)] else []) (K self)))"
    by (rule concatM_Some) (simp add: built_entry[OF assms] x_lookup)
  then show "do { ts \<leftarrow> concatM (\<lambda>k. do {
                      ok \<leftarrow> getitem (occurrences self) k;
                      if event ok = i
                      then do { xk \<leftarrow> getitem (x_vars self) k; Some [Var xk] }
                      else Some [] }) (K self);
             Some (EQ (lpSum ts) (Const 1)) }
      = Some (EQ (lpSum (map (\<lambda>k. Var (X k)) (filter (\<lambda>k. event (entry self k) = i) (K self)))) (Const 1))"
    by (simp add: concat_map_if_single)
qed

lemma activation_Some: assumes "built self" shows "activation self = Some (activation_val self)"
  unfolding activation_def activation_val_def
proof (rule concatM_Some)
  fix d assume d: "d \<in> set (days self)"
  have "concatM (\<lambda>k. do {
                      ok \<leftarrow> getitem (occurrences self) k;
                      if day ok = d
                      then do { xk \<leftarrow> getitem (x_vars self) k;
                                ud \<leftarrow> getitem (u_vars self) d;
                                Some [LE (Var xk) (Var ud)] }
                      else Some [] }) (K self)
        = Some (concat (map (\<lambda>k. if day (entry self k) = d then [LE (Var (X k)) (Var (U d))] else []) (K self)))"
    by (rule concatM_Some) (simp add: built_entry[OF assms] x_lookup u_lookup[OF d])
  then show "concatM (\<lambda>k. do {
                      ok \<leftarrow> getitem (occurrences self) k;
                      if day ok = d
                      then do { xk \<leftarrow> getitem (x_vars self) k;
                                ud \<leftarrow> getitem (u_vars self) d;
                                Some [LE (Var xk) (Var ud)] }
                      else Some [] }) (K self)
       = Some (map (\<lambda>k. LE (Var (X k)) (Var (U d))) (filter (\<lambda>k. day (entry self k) = d) (K self)))"
    by (simp add: concat_map_if_single)
qed

lemma linkage_Some: assumes "built self" shows "linkage self = Some (linkage_val self)"
  unfolding linkage_def linkage_val_def
proof (rule concatM_Some)
  fix p assume pm: "p \<in> set (same_day_pairs self)"
  obtain k m where p: "p = (k, m)" by (cases p)
  from pm p have "k \<in> set (K self)" "m \<in> set (K self)"
    using built_pair_mem[OF assms, of k m] by simp_all
  with pm p show "(case p of (k, m) \<Rightarrow> do {
                ykm \<leftarrow> getitem (y_vars self) (k, m);
                xk \<leftarrow> getitem (x_vars self) k;
                ykm' \<leftarrow> getitem (y_vars self) (k, m);
                xm \<leftarrow> getitem (x_vars self) m;
                Some [LE (Var ykm) (Var xk), LE (Var ykm') (Var xm)] })
     = Some (case p of (k, m) \<Rightarrow> [LE (Var (Y k m)) (Var (X k)), LE (Var (Y k m)) (Var (X m))])"
    by (simp add: y_lookup x_lookup)
qed

lemma canonical_pairs_Some: assumes "built self" shows "canonical_pairs self = Some (canonical_val self)"
  unfolding canonical_pairs_def canonical_val_def
proof (rule filterM_Some)
  fix p assume pm: "p \<in> set (same_day_pairs self)"
  obtain a b where p: "p = (a, b)" by (cases p)
  from pm p have "a \<in> set (K self)" "b \<in> set (K self)"
    using built_pair_mem[OF assms, of a b] by simp_all
  then show "(case p of (a, b) \<Rightarrow> if a < b
                then do { oa \<leftarrow> getitem (occurrences self) a;
                          ob \<leftarrow> getitem (occurrences self) b;
                          Some (day oa = day ob) }
                else Some False)
     = Some (case p of (a, b) \<Rightarrow> a < b \<and> day (entry self a) = day (entry self b))"
    by (simp add: p built_entry[OF assms])
qed

lemma canonical_val_mem: "(k, m) \<in> set (canonical_val self) \<Longrightarrow> (k, m) \<in> set (same_day_pairs self) \<and> k < m"
  by (simp add: canonical_val_def)

lemma direction_Some: assumes "built self" shows "direction self = Some (direction_val self)"
proof -
  have "concatM (\<lambda>(k, m). do {
                ykm \<leftarrow> getitem (y_vars self) (k, m);
                ymk \<leftarrow> getitem (y_vars self) (m, k);
                xk \<leftarrow> getitem (x_vars self) k;
                xm \<leftarrow> getitem (x_vars self) m;
                ykm' \<leftarrow> getitem (y_vars self) (k, m);
                ymk' \<leftarrow> getitem (y_vars self) (m, k);
                Some [GE (Add (Var ykm) (Var ymk)) (Sub (Add (Var xk) (Var xm)) (Const 1)),
                      LE (Add (Var ykm') (Var ymk')) (Const 1)] })
             (canonical_val self) = Some (direction_val self)"
    unfolding direction_val_def
  proof (rule concatM_Some)
    fix p assume pm: "p \<in> set (canonical_val self)"
    obtain k m where p: "p = (k, m)" by (cases p)
    from pm p have km: "(k, m) \<in> set (same_day_pairs self)" using canonical_val_mem by simp
    then have mk: "(m, k) \<in> set (same_day_pairs self)" by (rule built_pair_sym[OF assms])
    from km have "k \<in> set (K self)" "m \<in> set (K self)"
      using built_pair_mem[OF assms, of k m] by simp_all
    with km mk show "(case p of (k, m) \<Rightarrow> do {
                ykm \<leftarrow> getitem (y_vars self) (k, m);
                ymk \<leftarrow> getitem (y_vars self) (m, k);
                xk \<leftarrow> getitem (x_vars self) k;
                xm \<leftarrow> getitem (x_vars self) m;
                ykm' \<leftarrow> getitem (y_vars self) (k, m);
                ymk' \<leftarrow> getitem (y_vars self) (m, k);
                Some [GE (Add (Var ykm) (Var ymk)) (Sub (Add (Var xk) (Var xm)) (Const 1)),
                      LE (Add (Var ykm') (Var ymk')) (Const 1)] })
      = Some (case p of (k, m) \<Rightarrow>
                  [GE (Add (Var (Y k m)) (Var (Y m k))) (Sub (Add (Var (X k)) (Var (X m))) (Const 1)),
                   LE (Add (Var (Y k m)) (Var (Y m k))) (Const 1)])"
      by (simp add: p y_lookup x_lookup)
  qed
  then show ?thesis
    by (simp add: direction_def canonical_pairs_Some[OF assms])
qed

lemma time_feasibility_Some: assumes "built self" shows "time_feasibility self = Some (time_val self)"
  unfolding time_feasibility_def time_val_def
proof (rule concatM_Some)
  fix p assume pm: "p \<in> set (same_day_pairs self)"
  obtain k m where p: "p = (k, m)" by (cases p)
  from pm p have "k \<in> set (K self)" "m \<in> set (K self)"
    using built_pair_mem[OF assms, of k m] by simp_all
  with pm p show "(case p of (k, m) \<Rightarrow> do {
                ok \<leftarrow> getitem (occurrences self) k;
                om \<leftarrow> getitem (occurrences self) m;
                travel_val \<leftarrow> travel_time self k m;
                ykm \<leftarrow> getitem (y_vars self) (k, m);
                Some [GE (Const (start om))
                         (Sub (Const (end' ok + travel_val + buffer_minutes self))
                              (Scale (M self) (Sub (Const 1) (Var ykm))))] })
    = Some (case p of (k, m) \<Rightarrow>
                  [GE (Const (start (entry self m)))
                      (Sub (Const (end' (entry self k) + travel_val self k m + buffer_minutes self))
                           (Scale (M self) (Sub (Const 1) (Var (Y k m)))))])"
    by (simp add: y_lookup built_entry[OF assms] travel_time_Some[OF assms])
qed

lemma gap_cost_Some:
  assumes "built self"
  shows "gap_cost self =
    Some (lpSum (map (\<lambda>(k, m). Scale (start (entry self m) - end' (entry self k)) (Var (Y k m))) (same_day_pairs self)))"
proof -
  have "mapM (\<lambda>(k, m). do {
                ykm \<leftarrow> getitem (y_vars self) (k, m);
                om \<leftarrow> getitem (occurrences self) m;
                ok \<leftarrow> getitem (occurrences self) k;
                Some (Scale (start om - end' ok) (Var ykm)) })
             (same_day_pairs self)
     = Some (map (\<lambda>(k, m). Scale (start (entry self m) - end' (entry self k)) (Var (Y k m))) (same_day_pairs self))"
  proof (rule mapM_Some)
    fix p assume pm: "p \<in> set (same_day_pairs self)"
    obtain k m where p: "p = (k, m)" by (cases p)
    from pm p have "k \<in> set (K self)" "m \<in> set (K self)"
      using built_pair_mem[OF assms, of k m] by simp_all
    with pm p show "(case p of (k, m) \<Rightarrow> do {
                ykm \<leftarrow> getitem (y_vars self) (k, m);
                om \<leftarrow> getitem (occurrences self) m;
                ok \<leftarrow> getitem (occurrences self) k;
                Some (Scale (start om - end' ok) (Var ykm)) })
       = Some (case p of (k, m) \<Rightarrow> Scale (start (entry self m) - end' (entry self k)) (Var (Y k m)))"
      by (simp add: y_lookup built_entry[OF assms])
  qed
  then show ?thesis by (simp add: gap_cost_def)
qed

lemma travel_cost_Some:
  assumes "built self"
  shows "travel_cost self =
    Some (lpSum (map (\<lambda>(k, m). Scale (travel_val self k m) (Var (Y k m))) (same_day_pairs self)))"
proof -
  have "mapM (\<lambda>(k, m). do {
                ykm \<leftarrow> getitem (y_vars self) (k, m);
                travel_val \<leftarrow> travel_time self k m;
                Some (Scale travel_val (Var ykm)) })
             (same_day_pairs self)
     = Some (map (\<lambda>(k, m). Scale (travel_val self k m) (Var (Y k m))) (same_day_pairs self))"
  proof (rule mapM_Some)
    fix p assume pm: "p \<in> set (same_day_pairs self)"
    obtain k m where p: "p = (k, m)" by (cases p)
    from pm p have "k \<in> set (K self)" "m \<in> set (K self)"
      using built_pair_mem[OF assms, of k m] by simp_all
    with pm p show "(case p of (k, m) \<Rightarrow> do {
                ykm \<leftarrow> getitem (y_vars self) (k, m);
                travel_val \<leftarrow> travel_time self k m;
                Some (Scale travel_val (Var ykm)) })
       = Some (case p of (k, m) \<Rightarrow> Scale (travel_val self k m) (Var (Y k m)))"
      by (simp add: y_lookup travel_time_Some[OF assms])
  qed
  then show ?thesis by (simp add: travel_cost_def)
qed

lemma obj_Some: assumes "built self" shows "obj self = Some (obj_val self)"
proof -
  have "mapM (\<lambda>d. map_option Var (getitem (u_vars self) d)) (days self)
        = Some (map (\<lambda>d. Var (U d)) (days self))"
    by (rule mapM_Some) (simp add: u_lookup)
  then show ?thesis
    by (simp add: obj_def obj_val_def gap_cost_Some[OF assms] travel_cost_Some[OF assms])
qed

lemma build_problem_Some: assumes "built self" shows "build_problem self = Some (problem_val self)"
  by (simp add: build_problem_def problem_val_def coverage_Some[OF assms] activation_Some[OF assms]
      linkage_Some[OF assms] direction_Some[OF assms] time_feasibility_Some[OF assms] obj_Some[OF assms]
      x_vars_def u_vars_def y_vars_def comp_def case_prod_beta)

subsection \<open>What a feasible assignment satisfies\<close>

lemma sat_cov:
  "list_all (satisfied a) (coverage_val self) \<longleftrightarrow>
     (\<forall>i \<in> set (events self). (\<Sum>k\<leftarrow>filter (\<lambda>k. event (entry self k) = i) (K self). a (X k)) = 1)"
  by (simp add: coverage_val_def list_all_iff lp_value_lpSum comp_def)

lemma sat_act:
  "list_all (satisfied a) (activation_val self) \<longleftrightarrow>
     (\<forall>d \<in> set (days self). \<forall>k \<in> set (K self). day (entry self k) = d \<longrightarrow> a (X k) \<le> a (U d))"
  by (auto simp: activation_val_def list_all_iff)

lemma sat_lnk:
  "list_all (satisfied a) (linkage_val self) \<longleftrightarrow>
     (\<forall>(k, m) \<in> set (same_day_pairs self). a (Y k m) \<le> a (X k) \<and> a (Y k m) \<le> a (X m))"
  by (auto simp: linkage_val_def list_all_iff)

lemma sat_dir:
  "list_all (satisfied a) (direction_val self) \<longleftrightarrow>
     (\<forall>(k, m) \<in> set (canonical_val self).
         a (X k) + a (X m) - 1 \<le> a (Y k m) + a (Y m k) \<and> a (Y k m) + a (Y m k) \<le> 1)"
  by (auto simp: direction_val_def list_all_iff)

lemma sat_tim:
  "list_all (satisfied a) (time_val self) \<longleftrightarrow>
     (\<forall>(k, m) \<in> set (same_day_pairs self).
         real_of_int (end' (entry self k) + travel_val self k m + buffer_minutes self)
           - real_of_int (M self) * (1 - a (Y k m)) \<le> real_of_int (start (entry self m)))"
  by (auto simp: time_val_def list_all_iff)

lemma bin_lp:
  "list_all (\<lambda>v. is_binary (a v)) (variables (problem_val self)) \<longleftrightarrow>
     (\<forall>k \<in> set (K self). is_binary (a (X k))) \<and>
     (\<forall>d \<in> set (days self). is_binary (a (U d))) \<and>
     (\<forall>(k, m) \<in> set (same_day_pairs self). is_binary (a (Y k m)))"
  by (auto simp: problem_val_def list_all_iff)

lemma feasible_lp:
  "feasible (problem_val self) a \<longleftrightarrow>
     list_all (\<lambda>v. is_binary (a v)) (variables (problem_val self)) \<and>
     list_all (satisfied a) (coverage_val self) \<and> list_all (satisfied a) (activation_val self) \<and>
     list_all (satisfied a) (linkage_val self) \<and> list_all (satisfied a) (direction_val self) \<and>
     list_all (satisfied a) (time_val self)"
  by (auto simp: feasible_def problem_val_def)

subsection \<open>Reading the solution: chosen keys and sorting\<close>

lemma insort_key_decorated_eq:
  "insort_key snd (x, f x) (map (\<lambda>y. (y, f y)) ys) = map (\<lambda>y. (y, f y)) (insort_key f x ys)"
  by (induction ys) simp_all

lemma sort_key_decorated:
  "sort_key snd (map (\<lambda>y. (y, f y)) xs) = map (\<lambda>y. (y, f y)) (sort_key f xs)"
  by (induction xs) (simp_all add: insort_key_decorated_eq)

lemma sort_decorate_undecorate:
  "map fst (sort_key snd (zip xs (map f xs))) = sort_key f xs"
proof -
  have "zip xs (map f xs) = map (\<lambda>y. (y, f y)) xs"
    by (induction xs) simp_all
  then show ?thesis by (simp add: sort_key_decorated comp_def)
qed

lemma chosen_of_Some: "chosen_of self a = Some (chosen_val self a)"
  unfolding chosen_of_def chosen_val_def by (rule filterM_Some) (simp add: x_lookup)

lemma chosen_val_subset: "set (chosen_val self a) \<subseteq> set (K self)"
  by (simp add: chosen_val_def)

lemma todays_of_Some:
  assumes "built self" "set ch \<subseteq> set (K self)"
  shows "todays_of self ch d = Some (filter (\<lambda>k. day (entry self k) = d) ch)"
  unfolding todays_of_def
proof (rule filterM_Some)
  fix k assume "k \<in> set ch"
  with assms(2) have "k \<in> set (K self)" by blast
  then show "do { ok \<leftarrow> getitem (occurrences self) k; Some (day ok = d) } = Some (day (entry self k) = d)"
    by (simp add: built_entry[OF assms(1)])
qed

lemma count_step_eq:
  "count_step self a bc (k, m) =
     (if hit self a (k, m)
      then (case getitem bc m of None \<Rightarrow> None | Some c \<Rightarrow> Some (AList.update m (c + 1) bc))
      else Some bc)"
proof -
  have mem: "((k, m) \<in> set (map fst (y_vars self))) = ((k, m) \<in> set (same_day_pairs self))"
    by (simp only: y_keys)
  show ?thesis
    unfolding count_step_def prod.case mem
    by (cases "(k, m) \<in> set (same_day_pairs self)") (simp_all add: hit_def y_lookup split: option.splits)
qed

subsection \<open>The predecessor counts\<close>

lemma count_fold:
  assumes "\<forall>p \<in> set ps. snd p \<in> set (map fst bc)"
  shows "\<exists>bc'. foldM (count_step self a) bc ps = Some bc' \<and> map fst bc' = map fst bc \<and>
           (\<forall>m \<in> set (map fst bc). \<exists>c. getitem bc m = Some c \<and> getitem bc' m = Some (c + hits self a ps m))"
  using assms
proof (induction ps arbitrary: bc)
  case Nil
  have "\<exists>c. getitem bc m = Some c \<and> getitem bc m = Some (c + hits self a [] m)"
    if "m \<in> set (map fst bc)" for m
  proof -
    from getitem_key[OF that] obtain c where "getitem bc m = Some c" by blast
    then show ?thesis by (simp add: hits_def)
  qed
  then show ?case by simp
next
  case (Cons p ps)
  obtain k m where p: "p = (k, m)" by (cases p)
  from Cons.prems p have mk: "m \<in> set (map fst bc)" by simp
  obtain c where c: "getitem bc m = Some c" using getitem_key[OF mk] by blast
  define bc1 where "bc1 = (if hit self a (k, m) then AList.update m (c + 1) bc else bc)"
  have step: "count_step self a bc p = Some bc1"
    by (simp add: p count_step_eq c bc1_def)
  have keys1: "map fst bc1 = map fst bc"
    using mk by (simp add: bc1_def AList.update_keys)
  have val1: "getitem bc1 m' = (if hit self a (k, m) \<and> m' = m then Some (c + 1) else getitem bc m')" for m'
    by (simp add: bc1_def AList.update_conv')
  from Cons.prems have "\<forall>p \<in> set ps. snd p \<in> set (map fst bc)" by simp
  then have "\<forall>p \<in> set ps. snd p \<in> set (map fst bc1)" by (simp only: keys1)
  from Cons.IH[OF this] obtain bc' where
    f: "foldM (count_step self a) bc1 ps = Some bc'" and
    k': "map fst bc' = map fst bc1" and
    v': "\<forall>m \<in> set (map fst bc1). \<exists>c. getitem bc1 m = Some c \<and> getitem bc' m = Some (c + hits self a ps m)"
    by blast
  have "\<exists>c. getitem bc m' = Some c \<and> getitem bc' m' = Some (c + hits self a (p # ps) m')"
    if mm: "m' \<in> set (map fst bc)" for m'
  proof -
    from mm have "m' \<in> set (map fst bc1)" by (simp only: keys1)
    with v' obtain c1 where c1: "getitem bc1 m' = Some c1" "getitem bc' m' = Some (c1 + hits self a ps m')"
      by blast
    obtain c0 where c0: "getitem bc m' = Some c0" using getitem_key[OF mm] by blast
    show ?thesis
    proof (cases "hit self a (k, m) \<and> m' = m")
      case True
      then have "getitem bc1 m' = Some (c + 1)" by (simp add: val1)
      with c1(1) have c1v: "c1 = c + 1" by simp
      from True c c0 have c0v: "c0 = c" by simp
      from True have "hits self a (p # ps) m' = Suc (hits self a ps m')"
        by (simp add: hits_def p)
      with c1(2) c1v c0v c0 show ?thesis by simp
    next
      case False
      then have "getitem bc1 m' = getitem bc m'" unfolding val1 by auto
      with c1(1) c0 have "c1 = c0" by simp
      moreover from False have "hits self a (p # ps) m' = hits self a ps m'"
        by (auto simp: hits_def p)
      ultimately show ?thesis using c1(2) c0 by simp
    qed
  qed
  then have main: "\<forall>m \<in> set (map fst bc). \<exists>c. getitem bc m = Some c \<and> getitem bc' m = Some (c + hits self a (p # ps) m)"
    by blast
  have "foldM (count_step self a) bc (p # ps) = Some bc'" using step f by simp
  moreover have "map fst bc' = map fst bc" using k' keys1 by (rule trans)
  ultimately show ?case using main by blast
qed

subsection \<open>One step of the schedule loop\<close>

lemma before_count_of_Some:
  "\<exists>bc. before_count_of self a todays = Some bc \<and> map fst bc = todays \<and>
        (\<forall>m \<in> set todays. getitem bc m = Some (count_val self a todays m))"
proof -
  let ?bc0 = "map (\<lambda>k. (k, 0::nat)) todays"
  have keys0: "map fst ?bc0 = todays" by (simp add: comp_def)
  have "\<forall>p \<in> set (permutations2 todays). snd p \<in> set (map fst ?bc0)"
    unfolding keys0 using permutations2_mem[of _ _ todays] by auto
  from count_fold[OF this, of self a] obtain bc where
    f: "foldM (count_step self a) ?bc0 (permutations2 todays) = Some bc" and
    k: "map fst bc = map fst ?bc0" and
    v: "\<forall>m \<in> set (map fst ?bc0). \<exists>c. getitem ?bc0 m = Some c \<and> getitem bc m = Some (c + hits self a (permutations2 todays) m)"
    by blast
  have "getitem bc m = Some (count_val self a todays m)" if "m \<in> set todays" for m
  proof -
    from that v keys0 obtain c where "getitem ?bc0 m = Some c" "getitem bc m = Some (c + hits self a (permutations2 todays) m)"
      by auto
    moreover have "getitem ?bc0 m = Some 0" using that by (simp add: getitem_comprehension)
    ultimately show ?thesis by (simp add: count_val_def)
  qed
  with f k keys0 show ?thesis by (simp add: before_count_of_def)
qed

lemma ordered_of_Some:
  assumes "\<forall>m \<in> set todays. getitem bc m = Some (c m)"
  shows "ordered_of bc todays = Some (sort_key c todays)"
proof -
  have "mapM (\<lambda>kk. getitem bc kk) todays = Some (map c todays)"
    by (rule mapM_Some) (simp add: assms)
  then show ?thesis by (simp add: ordered_of_def sort_decorate_undecorate)
qed

lemma schedule_step_Some:
  assumes "built self"
  shows "schedule_step self a (chosen_val self a) acc d =
          Some (if ordered_val self a d \<noteq> [] then AList.update d (ordered_val self a d) acc else acc)"
proof -
  have t: "todays_of self (chosen_val self a) d = Some (todays_val self a d)"
    unfolding todays_val_def by (rule todays_of_Some[OF assms chosen_val_subset])
  obtain bc where b: "before_count_of self a (todays_val self a d) = Some bc"
    and v: "\<forall>m \<in> set (todays_val self a d). getitem bc m = Some (count_val self a (todays_val self a d) m)"
    using before_count_of_Some[of self a "todays_val self a d"] by blast
  have o: "ordered_of bc (todays_val self a d) = Some (ordered_val self a d)"
    unfolding ordered_val_def by (rule ordered_of_Some[OF v])
  show ?thesis by (simp add: schedule_step_def t b o)
qed

subsection \<open>The schedule, days_used and the result\<close>

lemma update_fresh: "k \<notin> fst ` set al \<Longrightarrow> AList.update k v al = al @ [(k, v)]"
  by (induction al) auto

lemma schedule_fold:
  assumes "built self" "distinct ds" "fst ` set s \<inter> set ds = {}"
  shows "foldM (schedule_step self a (chosen_val self a)) s ds =
           Some (s @ map (\<lambda>d. (d, ordered_val self a d)) (filter (\<lambda>d. ordered_val self a d \<noteq> []) ds))"
  using assms(2,3)
proof (induction ds arbitrary: s)
  case Nil
  show ?case by simp
next
  case (Cons d ds)
  let ?s1 = "if ordered_val self a d \<noteq> [] then AList.update d (ordered_val self a d) s else s"
  from Cons.prems have fresh: "d \<notin> fst ` set s" by auto
  then have s1: "?s1 = s @ (if ordered_val self a d \<noteq> [] then [(d, ordered_val self a d)] else [])"
    by (simp add: update_fresh)
  from Cons.prems have "distinct ds" "fst ` set ?s1 \<inter> set ds = {}"
    unfolding s1 by auto
  from Cons.IH[OF this]
  have "foldM (schedule_step self a (chosen_val self a)) ?s1 ds =
           Some (?s1 @ map (\<lambda>d. (d, ordered_val self a d)) (filter (\<lambda>d. ordered_val self a d \<noteq> []) ds))" .
  have "foldM (schedule_step self a (chosen_val self a)) s (d # ds)
        = foldM (schedule_step self a (chosen_val self a)) ?s1 ds"
    by (simp add: schedule_step_Some[OF assms(1)])
  also have "\<dots> = Some (?s1 @ map (\<lambda>d. (d, ordered_val self a d)) (filter (\<lambda>d. ordered_val self a d \<noteq> []) ds))"
    by fact
  also have "\<dots> = Some (s @ map (\<lambda>d. (d, ordered_val self a d)) (filter (\<lambda>d. ordered_val self a d \<noteq> []) (d # ds)))"
    unfolding s1 by simp
  finally show ?case .
qed

lemma schedule_Some:
  assumes "built self"
  shows "foldM (schedule_step self a (chosen_val self a)) [] (days self) = Some (schedule_val self a)"
  using schedule_fold[OF assms built_days_distinct[OF assms], of "[]" a] by (simp add: schedule_val_def)

lemma days_used_of_Some: "days_used_of self a = Some (days_used_val self a)"
proof -
  have "mapM (\<lambda>d. do { ud \<leftarrow> getitem (u_vars self) d; Some (if a ud > 0.5 then 1 else 0) }) (days self)
        = Some (map (\<lambda>d. if a (U d) > 0.5 then (1::int) else 0) (days self))"
    by (rule mapM_Some) (simp add: u_lookup)
  then show ?thesis unfolding days_used_of_def days_used_val_def by simp
qed

lemma read_solution_Some:
  assumes "built self"
  shows "read_solution self st a =
     Some \<lparr> schedule = schedule_val self a, days_used = days_used_val self a, chosen_occurrences = chosen_val self a, status = st \<rparr>"
  unfolding read_solution_def
  by (simp add: chosen_of_Some schedule_Some[OF assms] days_used_of_Some)

lemma optimize_eq:
  assumes "built self"
  shows "optimize self solve =
     (case solve (problem_val self) of
        Inl e \<Rightarrow> Inl e
      | Inr (st, a) \<Rightarrow>
          Inr \<lparr> schedule = schedule_val self a, days_used = days_used_val self a,
                chosen_occurrences = chosen_val self a, status = st \<rparr>)"
  unfolding optimize_def
  by (simp add: build_problem_Some[OF assms] read_solution_Some[OF assms] split: sum.split)

subsection \<open>Keys and entries of the schedule\<close>

lemma run_eq:
  assumes "init occs td b = Some self"
  shows "run occs td b solve =
     (case solve (problem_val self) of
        Inl e \<Rightarrow> Inl e
      | Inr (st, a) \<Rightarrow>
          Inr \<lparr> schedule = schedule_val self a, days_used = days_used_val self a,
                chosen_occurrences = chosen_val self a, status = st \<rparr>)"
proof -
  from assms have "built self" using init_built by blast
  from optimize_eq[OF this] assms show ?thesis by (simp add: run_def)
qed

lemma run_Inr:
  assumes "init occs td b = Some self" and "solve (problem_val self) = Inr (st, a)"
  shows "run occs td b solve =
     Inr \<lparr> schedule = schedule_val self a, days_used = days_used_val self a,
           chosen_occurrences = chosen_val self a, status = st \<rparr>"
  unfolding run_eq[OF assms(1)] assms(2) by simp

lemma run_Inl:
  assumes "init occs td b = Some self" and "solve (problem_val self) = Inl e"
  shows "run occs td b solve = Inl e"
  unfolding run_eq[OF assms(1)] assms(2) by simp

lemma init_total: "\<exists>self. init occs td b = Some self"
  by (simp add: init_Some)

lemma keys_schedule_val:
  "map fst (schedule_val self a) = filter (\<lambda>d. ordered_val self a d \<noteq> []) (days self)"
  by (simp add: schedule_val_def comp_def)

lemma mset_ordered_val: "mset (ordered_val self a d) = mset (todays_val self a d)"
  by (simp add: ordered_val_def)

lemma ordered_val_empty: "ordered_val self a d = [] \<longleftrightarrow> todays_val self a d = []"
  using mset_ordered_val[of self a d] by (metis mset_zero_iff)

lemma todays_val_on_day:
  assumes "built self"
  shows "todays_val self a d = filter (on_day (occurrences self) d) (chosen_val self a)"
  unfolding todays_val_def
proof (rule filter_cong[OF refl])
  fix k assume "k \<in> set (chosen_val self a)"
  then have "k \<in> set (K self)" using chosen_val_subset by blast
  from built_entry[OF assms this]
  show "(day (entry self k) = d) = on_day (occurrences self) d k"
    by (simp add: on_day_def)
qed

lemma todays_val_nonempty:
  assumes "built self"
  shows "todays_val self a d \<noteq> [] \<longleftrightarrow> (\<exists>k \<in> set (chosen_val self a). on_day (occurrences self) d k)"
  unfolding todays_val_on_day[OF assms] by (simp add: filter_empty_conv)

lemma on_day_days:
  assumes "built self" "k \<in> set (chosen_val self a)" "on_day (occurrences self) d k"
  shows "d \<in> set (days self)"
proof -
  from assms(2) have k: "k \<in> set (K self)" using chosen_val_subset by blast
  from built_entry[OF assms(1) k] assms(3) have "day (entry self k) = d" by (simp add: on_day_def)
  with built_day_mem[OF assms(1) k] show ?thesis by simp
qed

lemma schedule_val_keys_iff:
  assumes "built self"
  shows "d \<in> set (map fst (schedule_val self a)) \<longleftrightarrow> (\<exists>k \<in> set (chosen_val self a). on_day (occurrences self) d k)"
proof -
  have "d \<in> set (map fst (schedule_val self a)) \<longleftrightarrow> d \<in> set (days self) \<and> todays_val self a d \<noteq> []"
    unfolding keys_schedule_val by (auto simp: ordered_val_empty)
  also have "\<dots> \<longleftrightarrow> (\<exists>k \<in> set (chosen_val self a). on_day (occurrences self) d k)"
    unfolding todays_val_nonempty[OF assms] using on_day_days[OF assms] by blast
  finally show ?thesis .
qed

lemma schedule_val_entry:
  assumes "(d, ks) \<in> set (schedule_val self a)"
  shows "ks = ordered_val self a d \<and> ks \<noteq> [] \<and> d \<in> set (days self)"
  using assms by (auto simp: schedule_val_def)

lemma schedule_val_distinct: "built self \<Longrightarrow> distinct (map fst (schedule_val self a))"
  unfolding keys_schedule_val using built_days_distinct by (simp add: distinct_filter)

lemma schedule_val_empty:
  assumes "built self"
  shows "schedule_val self a = [] \<longleftrightarrow> chosen_val self a = []"
proof
  assume e: "schedule_val self a = []"
  show "chosen_val self a = []"
  proof (rule ccontr)
    assume "chosen_val self a \<noteq> []"
    then obtain k where k: "k \<in> set (chosen_val self a)" by (cases "chosen_val self a") auto
    then have kk: "k \<in> set (K self)" using chosen_val_subset by blast
    from built_entry[OF assms kk] have "on_day (occurrences self) (day (entry self k)) k"
      by (simp add: on_day_def)
    with k have "day (entry self k) \<in> set (map fst (schedule_val self a))"
      unfolding schedule_val_keys_iff[OF assms] by blast
    with e show False by simp
  qed
next
  assume "chosen_val self a = []"
  then have "\<And>d. todays_val self a d = []" by (simp add: todays_val_def)
  then show "schedule_val self a = []" by (simp add: schedule_val_def ordered_val_empty)
qed

lemma events_have_candidates:
  assumes "built self"
  shows "list_all (\<lambda>i. list_ex (\<lambda>p. event (snd p) = i) (occurrences self)) (events self)"
proof -
  from assms have "set (events self) = (event \<circ> snd) ` set (occurrences self)"
    by (simp add: built_def)
  then show ?thesis by (auto simp: list_all_iff list_ex_iff)
qed

subsection \<open>Consequences of feasibility\<close>

lemma binary_sum_count:
  "(\<And>k. k \<in> set xs \<Longrightarrow> is_binary (f k)) \<Longrightarrow>
   (\<Sum>k\<leftarrow>xs. f k) = real (length (filter (\<lambda>k. f k > 0.5) xs))"
proof (induction xs)
  case Nil
  show ?case by simp
next
  case (Cons x xs)
  then have ih: "(\<Sum>k\<leftarrow>xs. f k) = real (length (filter (\<lambda>k. f k > 0.5) xs))" by simp
  from Cons.prems have "is_binary (f x)" by simp
  then consider "f x = 0" | "f x = 1" unfolding is_binary_def by blast
  then show ?case
  proof cases
    case 1
    then show ?thesis using ih by simp
  next
    case 2
    then show ?thesis using ih by simp
  qed
qed

lemma feasible_binary_X:
  "feasible (problem_val self) a \<Longrightarrow> k \<in> set (K self) \<Longrightarrow> is_binary (a (X k))"
  unfolding feasible_lp bin_lp by blast

lemma feasible_binary_U:
  "feasible (problem_val self) a \<Longrightarrow> d \<in> set (days self) \<Longrightarrow> is_binary (a (U d))"
  unfolding feasible_lp bin_lp by blast

lemma feasible_binary_Y:
  "feasible (problem_val self) a \<Longrightarrow> (k, m) \<in> set (same_day_pairs self) \<Longrightarrow> is_binary (a (Y k m))"
  unfolding feasible_lp bin_lp by blast

lemma feasible_cover:
  "feasible (problem_val self) a \<Longrightarrow> i \<in> set (events self) \<Longrightarrow>
   (\<Sum>k\<leftarrow>filter (\<lambda>k. event (entry self k) = i) (K self). a (X k)) = 1"
  unfolding feasible_lp sat_cov by blast

lemma feasible_activate:
  "feasible (problem_val self) a \<Longrightarrow> k \<in> set (K self) \<Longrightarrow> day (entry self k) \<in> set (days self) \<Longrightarrow>
   a (X k) \<le> a (U (day (entry self k)))"
  unfolding feasible_lp sat_act by blast

lemma feasible_link:
  "feasible (problem_val self) a \<Longrightarrow> (k, m) \<in> set (same_day_pairs self) \<Longrightarrow>
   a (Y k m) \<le> a (X k) \<and> a (Y k m) \<le> a (X m)"
  unfolding feasible_lp sat_lnk by blast

lemma feasible_direction:
  "feasible (problem_val self) a \<Longrightarrow> (k, m) \<in> set (canonical_val self) \<Longrightarrow>
   a (X k) + a (X m) - 1 \<le> a (Y k m) + a (Y m k) \<and> a (Y k m) + a (Y m k) \<le> 1"
  unfolding feasible_lp sat_dir by blast

lemma feasible_time:
  "feasible (problem_val self) a \<Longrightarrow> (k, m) \<in> set (same_day_pairs self) \<Longrightarrow>
   real_of_int (end' (entry self k) + travel_val self k m + buffer_minutes self)
           - real_of_int (M self) * (1 - a (Y k m)) \<le> real_of_int (start (entry self m))"
  unfolding feasible_lp sat_tim by blast

lemma chosen_on_event:
  assumes "built self"
  shows "filter (on_event (occurrences self) i) (chosen_val self a)
       = filter (\<lambda>k. a (X k) > 0.5) (filter (\<lambda>k. event (entry self k) = i) (K self))"
proof -
  have "filter (on_event (occurrences self) i) (chosen_val self a)
      = filter (\<lambda>k. event (entry self k) = i) (chosen_val self a)"
  proof (rule filter_cong[OF refl])
    fix k assume "k \<in> set (chosen_val self a)"
    then have "k \<in> set (K self)" using chosen_val_subset by blast
    from built_entry[OF assms this]
    show "on_event (occurrences self) i k = (event (entry self k) = i)"
      by (simp add: on_event_def)
  qed
  then show ?thesis by (simp add: chosen_val_def conj_commute)
qed

lemma one_chosen_per_event:
  assumes "built self" "feasible (problem_val self) a" "i \<in> set (events self)"
  shows "length (filter (on_event (occurrences self) i) (chosen_val self a)) = 1"
proof -
  let ?ks = "filter (\<lambda>k. event (entry self k) = i) (K self)"
  have "(\<Sum>k\<leftarrow>?ks. a (X k)) = real (length (filter (\<lambda>k. a (X k) > 0.5) ?ks))"
    by (rule binary_sum_count) (simp add: feasible_binary_X[OF assms(2)])
  with feasible_cover[OF assms(2,3)] have "real (length (filter (\<lambda>k. a (X k) > 0.5) ?ks)) = 1"
    by simp
  then have "length (filter (\<lambda>k. a (X k) > 0.5) ?ks) = 1" by linarith
  then show ?thesis unfolding chosen_on_event[OF assms(1)] .
qed

lemma pair_in_same_day_pairs:
  assumes "built self" "getitem (occurrences self) k = Some ek" "getitem (occurrences self) m = Some em"
    "k \<noteq> m" "day ek = day em"
  shows "(k, m) \<in> set (same_day_pairs self)"
proof -
  from assms(1) have K: "K self = map fst (occurrences self)" by (simp add: built_def)
  from assms(2) have "k \<in> set (K self)" unfolding K by (metis map_of_SomeD fst_conv image_eqI set_map)
  then obtain i where i: "i < length (K self)" "K self ! i = k" by (auto simp: in_set_conv_nth)
  from assms(3) have "m \<in> set (K self)" unfolding K by (metis map_of_SomeD fst_conv image_eqI set_map)
  then obtain j where j: "j < length (K self)" "K self ! j = m" by (auto simp: in_set_conv_nth)
  from i j assms(4) have "i \<noteq> j" by blast
  with i j have "(k, m) \<in> set (permutations2 (K self))" unfolding set_permutations2 by blast
  moreover have "entry self k = ek" "entry self m = em" using assms(2,3) by (simp_all add: entry_def)
  ultimately show ?thesis using assms(1,4,5) by (simp add: built_def)
qed

lemma canonical_val_iff:
  assumes "built self" "(k, m) \<in> set (same_day_pairs self)"
  shows "(k, m) \<in> set (canonical_val self) \<longleftrightarrow> k < m"
  using assms built_pair_day[OF assms] by (simp add: canonical_val_def)

lemma direction_constraint_iff:
  "GE (Add (Var (Y k m)) (Var (Y m k))) (Sub (Add (Var (X k)) (Var (X m))) (Const 1)) \<in> set (direction_val self)
     \<longleftrightarrow> (k, m) \<in> set (canonical_val self)"
  by (auto simp: direction_val_def)

lemma direction_constraint_iff2:
  "LE (Add (Var (Y k m)) (Var (Y m k))) (Const 1) \<in> set (direction_val self)
     \<longleftrightarrow> (k, m) \<in> set (canonical_val self)"
  by (auto simp: direction_val_def)

lemma pair_directions:
  assumes "built self" "feasible (problem_val self) a" "(k, m) \<in> set (same_day_pairs self)"
  shows "(a (X k) = 1 \<and> a (X m) = 1 \<longrightarrow>
            (a (Y k m) = 1 \<and> a (Y m k) = 0) \<or> (a (Y k m) = 0 \<and> a (Y m k) = 1)) \<and>
         (\<not> (a (X k) = 1 \<and> a (X m) = 1) \<longrightarrow> a (Y k m) = 0 \<and> a (Y m k) = 0) \<and>
         \<not> (a (Y k m) = 1 \<and> a (Y m k) = 1)"
proof -
  from assms(3) have mk: "(m, k) \<in> set (same_day_pairs self)" by (rule built_pair_sym[OF assms(1)])
  from built_pair_mem[OF assms(1,3)] have kK: "k \<in> set (K self)" and mK: "m \<in> set (K self)" by simp_all
  from built_pair_day[OF assms(1,3)] have ne: "k \<noteq> m" by simp
  note bx = feasible_binary_X[OF assms(2) kK] feasible_binary_X[OF assms(2) mK]
  note by' = feasible_binary_Y[OF assms(2,3)] feasible_binary_Y[OF assms(2) mk]
  note l1 = feasible_link[OF assms(2,3)] and l2 = feasible_link[OF assms(2) mk]
  have d: "a (X k) + a (X m) - 1 \<le> a (Y k m) + a (Y m k) \<and> a (Y k m) + a (Y m k) \<le> 1"
  proof (cases "k < m")
    case True
    then have "(k, m) \<in> set (canonical_val self)" using canonical_val_iff[OF assms(1,3)] by simp
    from feasible_direction[OF assms(2) this] show ?thesis .
  next
    case False
    with ne have "m < k" by simp
    then have "(m, k) \<in> set (canonical_val self)" using canonical_val_iff[OF assms(1) mk] by simp
    from feasible_direction[OF assms(2) this] show ?thesis by (simp add: add.commute)
  qed
  from bx by' l1 l2 d show ?thesis
    unfolding is_binary_def by auto
qed

subsection \<open>Sorting by a count respects a strict order\<close>

lemma insort_key_cong_on:
  "f x = g x \<Longrightarrow> (\<And>y. y \<in> set ys \<Longrightarrow> f y = g y) \<Longrightarrow> insort_key f x ys = insort_key g x ys"
  by (induction ys) simp_all

lemma sort_key_cong_on:
  "(\<And>x. x \<in> set xs \<Longrightarrow> f x = g x) \<Longrightarrow> sort_key f xs = sort_key g xs"
proof (induction xs)
  case Nil
  show ?case by simp
next
  case (Cons x xs)
  then have ih: "sort_key f xs = sort_key g xs" by simp
  have "insort_key f x (sort_key g xs) = insort_key g x (sort_key g xs)"
    by (rule insort_key_cong_on) (simp_all add: Cons.prems)
  with ih show ?case by simp
qed

lemma count_as_card:
  assumes "distinct ts" "m \<in> set ts"
  shows "length (filter (\<lambda>p. snd p = m \<and> P p) (permutations2 ts))
       = card {k \<in> set ts. k \<noteq> m \<and> P (k, m)}"
proof -
  let ?l = "filter (\<lambda>p. snd p = m \<and> P p) (permutations2 ts)"
  have d: "distinct ?l" using distinct_permutations2[OF assms(1)] by simp
  have s: "set ?l = (\<lambda>k. (k, m)) ` {k \<in> set ts. k \<noteq> m \<and> P (k, m)}"
    using assms(2) unfolding set_filter set_permutations2_distinct[OF assms(1)] by auto
  have "length ?l = card (set ?l)" using distinct_card[OF d] by (rule sym)
  also have "\<dots> = card {k \<in> set ts. k \<noteq> m \<and> P (k, m)}"
    unfolding s by (rule card_image) (simp add: inj_on_def)
  finally show ?thesis .
qed

lemma sorted_respects_strict_order:
  fixes c :: "'a \<Rightarrow> nat"
  assumes d: "distinct xs"
    and tr: "\<And>x y z. x \<in> set xs \<Longrightarrow> y \<in> set xs \<Longrightarrow> z \<in> set xs \<Longrightarrow> R x y \<Longrightarrow> R y z \<Longrightarrow> R x z"
    and asym: "\<And>x y. x \<in> set xs \<Longrightarrow> y \<in> set xs \<Longrightarrow> R x y \<Longrightarrow> \<not> R y x"
    and cnt: "\<And>y. y \<in> set xs \<Longrightarrow> c y = card {x \<in> set xs. R x y}"
    and ij: "i < j" "j < length xs"
  shows "\<not> R (sort_key c xs ! j) (sort_key c xs ! i)"
proof
  let ?ys = "sort_key c xs"
  let ?x = "?ys ! i" and ?y = "?ys ! j"
  assume r: "R ?y ?x"
  from ij have len: "i < length ?ys" "j < length ?ys" by simp_all
  then have xin: "?x \<in> set xs" and yin: "?y \<in> set xs"
    using nth_mem[of i ?ys] nth_mem[of j ?ys] by simp_all
  have "sorted (map c ?ys)" by (rule sorted_sort_key)
  then have "map c ?ys ! i \<le> map c ?ys ! j"
    using ij by (intro sorted_nth_mono) simp_all
  then have le: "c ?x \<le> c ?y" using len by simp
  have sub: "{z \<in> set xs. R z ?y} \<subseteq> {z \<in> set xs. R z ?x}"
    using tr[OF _ yin xin _ r] by blast
  have "?y \<in> {z \<in> set xs. R z ?x}" using yin r by simp
  moreover have "?y \<notin> {z \<in> set xs. R z ?y}" using asym[OF yin yin] by blast
  ultimately have "{z \<in> set xs. R z ?y} \<subset> {z \<in> set xs. R z ?x}" using sub by blast
  then have "card {z \<in> set xs. R z ?y} < card {z \<in> set xs. R z ?x}"
    by (intro psubset_card_mono) simp_all
  then have "c ?y < c ?x" using cnt[OF xin] cnt[OF yin] by simp
  with le show False by simp
qed

subsection \<open>The program's extraction is the spec's\<close>

lemma built_K: "built self \<Longrightarrow> K self = map fst (occurrences self)"
  by (simp add: built_def)

lemma chosen_val_spec: "built self \<Longrightarrow> chosen_val self a = chosen_spec a (map fst (occurrences self))"
  by (simp add: chosen_val_def chosen_spec_def built_K)

lemma todays_val_spec: "built self \<Longrightarrow> todays_val self a d = todays_spec (occurrences self) a d"
  by (simp add: todays_val_on_day todays_spec_def chosen_val_spec)

lemma todays_val_distinct: "distinct (K self) \<Longrightarrow> distinct (todays_val self a d)"
  by (simp add: todays_val_def chosen_val_def)

lemma todays_val_mem:
  "k \<in> set (todays_val self a d) \<Longrightarrow> k \<in> set (K self) \<and> day (entry self k) = d \<and> a (X k) > 0.5"
  by (simp add: todays_val_def chosen_val_def)

lemma todays_pair:
  assumes "built self" "distinct (K self)"
    "k \<in> set (todays_val self a d)" "m \<in> set (todays_val self a d)" "k \<noteq> m"
  shows "(k, m) \<in> set (same_day_pairs self)"
  using todays_val_mem[OF assms(3)] todays_val_mem[OF assms(4)] assms(5)
  unfolding built_pairs_distinct_iff[OF assms(1,2)] by simp

lemma hit_before_active:
  assumes "built self" "distinct (K self)"
    "k \<in> set (todays_val self a d)" "m \<in> set (todays_val self a d)"
  shows "(k \<noteq> m \<and> hit self a (k, m)) \<longleftrightarrow> before_active a k m"
  using todays_pair[OF assms] by (auto simp: hit_def before_active_def)

lemma count_val_spec:
  assumes "built self" "distinct (K self)" "m \<in> set (todays_val self a d)"
  shows "count_val self a (todays_val self a d) m = predecessorCount_spec a (todays_val self a d) m"
proof -
  let ?T = "todays_val self a d"
  have "count_val self a ?T m = card {k \<in> set ?T. k \<noteq> m \<and> hit self a (k, m)}"
    unfolding count_val_def hits_def
    by (rule count_as_card[OF todays_val_distinct[OF assms(2)] assms(3)])
  also have "{k \<in> set ?T. k \<noteq> m \<and> hit self a (k, m)} = {k \<in> set ?T. before_active a k m}"
    using hit_before_active[OF assms(1,2) _ assms(3)] by blast
  finally show ?thesis by (simp add: predecessorCount_spec_def)
qed

lemma ordered_val_spec:
  assumes "built self" "distinct (K self)"
  shows "ordered_val self a d = order_spec (occurrences self) a d"
proof -
  have "ordered_val self a d
      = sort_key (predecessorCount_spec a (todays_val self a d)) (todays_val self a d)"
    unfolding ordered_val_def
    by (rule sort_key_cong_on) (rule count_val_spec[OF assms])
  then show ?thesis by (simp add: order_spec_def todays_val_spec[OF assms(1)])
qed

lemma schedule_val_spec:
  assumes "built self" "distinct (K self)"
  shows "schedule_val self a =
     map (\<lambda>d. (d, order_spec (occurrences self) a d))
         (filter (\<lambda>d. todays_spec (occurrences self) a d \<noteq> []) (days self))"
  unfolding schedule_val_def ordered_val_empty
  by (simp add: ordered_val_spec[OF assms] todays_val_spec[OF assms(1)])

lemma order_spec_props:
  "mset (order_spec occs a d) = mset (todays_spec occs a d) \<and>
   sorted (map (predecessorCount_spec a (todays_spec occs a d)) (order_spec occs a d)) \<and>
   (\<forall>c. filter (\<lambda>k. predecessorCount_spec a (todays_spec occs a d) k = c) (order_spec occs a d)
       = filter (\<lambda>k. predecessorCount_spec a (todays_spec occs a d) k = c) (todays_spec occs a d))"
  unfolding order_spec_def by (simp add: sort_key_stable)

lemma todays_spec_distinct: "distinct (map fst occs) \<Longrightarrow> distinct (todays_spec occs a d)"
  by (simp add: todays_spec_def chosen_spec_def)

lemma order_spec_consistent:
  assumes "distinct (map fst occs)" "strict_order_on a (todays_spec occs a d)"
    "i < j" "j < length (order_spec occs a d)"
  shows "\<not> before_active a (order_spec occs a d ! j) (order_spec occs a d ! i)"
  unfolding order_spec_def
proof (rule sorted_respects_strict_order[where R = "before_active a"])
  show "distinct (todays_spec occs a d)" by (rule todays_spec_distinct[OF assms(1)])
  show "i < j" by fact
  show "j < length (todays_spec occs a d)" using assms(4) by (simp add: order_spec_def)
  show "predecessorCount_spec a (todays_spec occs a d) y
        = card {x \<in> set (todays_spec occs a d). before_active a x y}" for y
    by (simp add: predecessorCount_spec_def)
  show "before_active a x z"
    if "x \<in> set (todays_spec occs a d)" "y \<in> set (todays_spec occs a d)" "z \<in> set (todays_spec occs a d)"
      "before_active a x y" "before_active a y z" for x y z
    using assms(2) that unfolding strict_order_on_def by blast
  show "\<not> before_active a y x"
    if "x \<in> set (todays_spec occs a d)" "y \<in> set (todays_spec occs a d)" "before_active a x y" for x y
    using assms(2) that unfolding strict_order_on_def by blast
qed

subsection \<open>Feasible assignments order a day's chosen occurrences\<close>

lemma binary_above: "is_binary v \<Longrightarrow> v > 0.5 \<Longrightarrow> v = 1"
  by (auto simp: is_binary_def)

lemma travel_val_nonneg:
  assumes "list_all (\<lambda>p. 0 \<le> snd p) (travel_distances self)"
  shows "0 \<le> travel_val self k m"
proof (cases "getitem (travel_distances self) (loc (entry self k), loc (entry self m))")
  case None
  then show ?thesis by (simp add: travel_val_def)
next
  case (Some v)
  then have "((loc (entry self k), loc (entry self m)), v) \<in> set (travel_distances self)"
    by (rule map_of_SomeD)
  with assms have "0 \<le> v" by (auto simp: list_all_iff)
  with Some show ?thesis by (simp add: travel_val_def)
qed

lemma entry_proper:
  assumes "built self" "list_all (\<lambda>p. start (snd p) < end' (snd p)) (occurrences self)" "k \<in> set (K self)"
  shows "start (entry self k) < end' (entry self k)"
proof -
  from built_entry[OF assms(1,3)] have "(k, entry self k) \<in> set (occurrences self)"
    by (rule map_of_SomeD)
  with assms(2) show ?thesis by (auto simp: list_all_iff)
qed

lemma feasible_before_time:
  assumes "feasible (problem_val self) a" "(k, m) \<in> set (same_day_pairs self)" "a (Y k m) > 0.5"
  shows "end' (entry self k) + travel_val self k m + buffer_minutes self \<le> start (entry self m)"
proof -
  have "a (Y k m) = 1" by (rule binary_above[OF feasible_binary_Y[OF assms(1,2)] assms(3)])
  with feasible_time[OF assms(1,2)]
  have "real_of_int (end' (entry self k) + travel_val self k m + buffer_minutes self)
          \<le> real_of_int (start (entry self m))" by simp
  then show ?thesis by linarith
qed

lemma before_active_start:
  assumes "built self" "distinct (K self)" "feasible (problem_val self) a"
    and "list_all (\<lambda>p. start (snd p) < end' (snd p)) (occurrences self)"
    and "list_all (\<lambda>p. 0 \<le> snd p) (travel_distances self)"
    and "0 \<le> buffer_minutes self"
    and "k \<in> set (todays_val self a d)" "m \<in> set (todays_val self a d)"
    and "before_active a k m"
  shows "start (entry self k) < start (entry self m)"
proof -
  from assms(9) have ne: "k \<noteq> m" and y: "a (Y k m) > 0.5" by (simp_all add: before_active_def)
  have p: "(k, m) \<in> set (same_day_pairs self)" by (rule todays_pair[OF assms(1,2,7,8) ne])
  from todays_val_mem[OF assms(7)] have kK: "k \<in> set (K self)" by simp
  from feasible_before_time[OF assms(3) p y] travel_val_nonneg[OF assms(5), of k m] assms(6)
    entry_proper[OF assms(1,4) kK]
  show ?thesis by linarith
qed

lemma before_active_total:
  assumes "built self" "distinct (K self)" "feasible (problem_val self) a"
    and "k \<in> set (todays_val self a d)" "m \<in> set (todays_val self a d)" "k \<noteq> m"
  shows "before_active a k m \<or> before_active a m k"
proof -
  have p: "(k, m) \<in> set (same_day_pairs self)" by (rule todays_pair[OF assms(1,2,4,5,6)])
  from todays_val_mem[OF assms(4)] have kK: "k \<in> set (K self)" and xk: "a (X k) > 0.5" by simp_all
  from todays_val_mem[OF assms(5)] have mK: "m \<in> set (K self)" and xm: "a (X m) > 0.5" by simp_all
  have "a (X k) = 1" by (rule binary_above[OF feasible_binary_X[OF assms(3) kK] xk])
  moreover have "a (X m) = 1" by (rule binary_above[OF feasible_binary_X[OF assms(3) mK] xm])
  ultimately have "(a (Y k m) = 1 \<and> a (Y m k) = 0) \<or> (a (Y k m) = 0 \<and> a (Y m k) = 1)"
    using pair_directions[OF assms(1,3) p] by blast
  with assms(6) show ?thesis by (auto simp: before_active_def)
qed

lemma feasible_strict_order:
  assumes "built self" "distinct (K self)" "feasible (problem_val self) a"
    and "list_all (\<lambda>p. start (snd p) < end' (snd p)) (occurrences self)"
    and "list_all (\<lambda>p. 0 \<le> snd p) (travel_distances self)"
    and "0 \<le> buffer_minutes self"
  shows "strict_order_on a (todays_val self a d)"
  unfolding strict_order_on_def
proof (intro conjI ballI impI)
  fix x y z
  assume x: "x \<in> set (todays_val self a d)" and y: "y \<in> set (todays_val self a d)"
    and z: "z \<in> set (todays_val self a d)" and r: "before_active a x y \<and> before_active a y z"
  from r before_active_start[OF assms x y] before_active_start[OF assms y z]
  have lt: "start (entry self x) < start (entry self z)" by simp
  then have ne: "x \<noteq> z" by auto
  from before_active_total[OF assms(1-3) x z ne] show "before_active a x z"
  proof
    assume "before_active a x z" then show ?thesis .
  next
    assume "before_active a z x"
    from before_active_start[OF assms z x this] lt show ?thesis by simp
  qed
next
  fix x y
  assume x: "x \<in> set (todays_val self a d)" and y: "y \<in> set (todays_val self a d)"
    and r: "before_active a x y"
  show "\<not> before_active a y x"
  proof
    assume "before_active a y x"
    from before_active_start[OF assms y x this] before_active_start[OF assms x y r]
    show False by simp
  qed
qed

lemma ordered_gap:
  assumes "built self" "distinct (K self)" "feasible (problem_val self) a"
    and "list_all (\<lambda>p. start (snd p) < end' (snd p)) (occurrences self)"
    and "list_all (\<lambda>p. 0 \<le> snd p) (travel_distances self)"
    and "0 \<le> buffer_minutes self"
    and "i < j" "j < length (ordered_val self a d)"
  shows "ordered_val self a d ! i \<in> set (K self) \<and> ordered_val self a d ! j \<in> set (K self) \<and>
         end' (entry self (ordered_val self a d ! i))
           + travel_val self (ordered_val self a d ! i) (ordered_val self a d ! j)
           + buffer_minutes self
         \<le> start (entry self (ordered_val self a d ! j))"
proof -
  let ?T = "todays_val self a d" and ?ks = "ordered_val self a d"
  have K: "K self = map fst (occurrences self)" by (rule built_K[OF assms(1)])
  have os: "?ks = order_spec (occurrences self) a d" by (rule ordered_val_spec[OF assms(1,2)])
  have ts: "?T = todays_spec (occurrences self) a d" by (rule todays_val_spec[OF assms(1)])
  have so: "strict_order_on a (todays_spec (occurrences self) a d)"
    using feasible_strict_order[OF assms(1-6), of d] ts by simp
  have dm: "distinct (map fst (occurrences self))" using assms(2) K by simp
  have nb: "\<not> before_active a (?ks ! j) (?ks ! i)"
    using order_spec_consistent[OF dm so assms(7)] assms(8) os by simp
  have set: "set ?ks = set ?T" using mset_ordered_val[of self a d] by (metis set_mset_mset)
  have dist: "distinct ?ks" using todays_val_distinct[OF assms(2), of a d] by (simp add: ordered_val_def)
  from assms(7,8) have iin: "?ks ! i \<in> set ?T" and jin: "?ks ! j \<in> set ?T"
    using set nth_mem[of i ?ks] nth_mem[of j ?ks] by auto
  from dist assms(7,8) have ne: "?ks ! i \<noteq> ?ks ! j" by (simp add: nth_eq_iff_index_eq)
  from before_active_total[OF assms(1-3) iin jin ne] nb have ba: "before_active a (?ks ! i) (?ks ! j)"
    by blast
  then have y: "a (Y (?ks ! i) (?ks ! j)) > 0.5" by (simp add: before_active_def)
  have p: "(?ks ! i, ?ks ! j) \<in> set (same_day_pairs self)" by (rule todays_pair[OF assms(1,2) iin jin ne])
  from feasible_before_time[OF assms(3) p y] todays_val_mem[OF iin] todays_val_mem[OF jin]
  show ?thesis by simp
qed

subsection \<open>Optimal assignments switch unused days off\<close>

lemma sum_list_switch_off:
  fixes f :: "'a \<Rightarrow> real"
  assumes "distinct ds" "d \<in> set ds"
  shows "(\<Sum>x\<leftarrow>ds. if x = d then 0 else f x) = (\<Sum>x\<leftarrow>ds. f x) - f d"
  using assms
proof (induction ds)
  case Nil
  then show ?case by simp
next
  case (Cons y ds)
  show ?case
  proof (cases "y = d")
    case True
    with Cons.prems have "d \<notin> set ds" by simp
    then have "(\<Sum>x\<leftarrow>ds. if x = d then 0 else f x) = (\<Sum>x\<leftarrow>ds. f x)"
      by (intro arg_cong[where f = sum_list] map_cong) auto
    with True show ?thesis by simp
  next
    case False
    with Cons.prems have "distinct ds" "d \<in> set ds" by simp_all
    from Cons.IH[OF this] False show ?thesis by simp
  qed
qed

lemma lp_value_obj_val:
  "lp_value a (obj_val self) =
     1000000 * (\<Sum>d\<leftarrow>days self. a (U d))
     + 1000 * (\<Sum>p\<leftarrow>same_day_pairs self.
                 real_of_int (start (entry self (snd p)) - end' (entry self (fst p))) * a (Y (fst p) (snd p)))
     + (\<Sum>p\<leftarrow>same_day_pairs self. real_of_int (travel_val self (fst p) (snd p)) * a (Y (fst p) (snd p)))"
  by (simp add: obj_val_def lp_value_lpSum comp_def case_prod_beta)

lemma objective_problem_val: "objective (problem_val self) = obj_val self"
  by (simp add: problem_val_def)

lemma switch_off_objective:
  assumes "distinct (days self)" "d \<in> set (days self)"
  shows "lp_value (a(U d := 0)) (obj_val self) = lp_value a (obj_val self) - 1000000 * a (U d)"
proof -
  have "(\<Sum>x\<leftarrow>days self. (a(U d := 0)) (U x)) = (\<Sum>x\<leftarrow>days self. if x = d then 0 else a (U x))"
    by (intro arg_cong[where f = sum_list] map_cong) auto
  also have "\<dots> = (\<Sum>x\<leftarrow>days self. a (U x)) - a (U d)"
    by (rule sum_list_switch_off[OF assms])
  finally show ?thesis unfolding lp_value_obj_val by simp
qed

lemma switch_off_feasible:
  assumes "feasible (problem_val self) a"
    and "\<And>k. k \<in> set (K self) \<Longrightarrow> day (entry self k) = d \<Longrightarrow> a (X k) = 0"
  shows "feasible (problem_val self) (a(U d := 0))"
proof -
  let ?b = "a(U d := 0)"
  from assms(1) have
    bin: "list_all (\<lambda>v. is_binary (a v)) (variables (problem_val self))" and
    c1: "list_all (satisfied a) (coverage_val self)" and
    c2: "list_all (satisfied a) (activation_val self)" and
    c3: "list_all (satisfied a) (linkage_val self)" and
    c4: "list_all (satisfied a) (direction_val self)" and
    c5: "list_all (satisfied a) (time_val self)"
    unfolding feasible_lp by simp_all
  have "list_all (\<lambda>v. is_binary (?b v)) (variables (problem_val self))"
    using bin unfolding bin_lp by (auto simp: is_binary_def)
  moreover have "list_all (satisfied ?b) (coverage_val self)" using c1 unfolding sat_cov by simp
  moreover have "list_all (satisfied ?b) (activation_val self)"
    using c2 assms(2) unfolding sat_act by auto
  moreover have "list_all (satisfied ?b) (linkage_val self)" using c3 unfolding sat_lnk by simp
  moreover have "list_all (satisfied ?b) (direction_val self)" using c4 unfolding sat_dir by simp
  moreover have "list_all (satisfied ?b) (time_val self)" using c5 unfolding sat_tim by simp
  ultimately show ?thesis unfolding feasible_lp by simp
qed

lemma optimum_day_flag:
  assumes "built self" "is_optimum (problem_val self) a" "d \<in> set (days self)"
  shows "a (U d) > 0.5 \<longleftrightarrow> todays_val self a d \<noteq> []"
proof
  assume on: "a (U d) > 0.5"
  from assms(2) have f: "feasible (problem_val self) a" by (simp add: is_optimum_def)
  show "todays_val self a d \<noteq> []"
  proof
    assume e: "todays_val self a d = []"
    have zero: "a (X k) = 0" if "k \<in> set (K self)" "day (entry self k) = d" for k
    proof -
      from e that have "\<not> a (X k) > 0.5"
        by (auto simp: todays_val_def chosen_val_def filter_empty_conv)
      with feasible_binary_X[OF f that(1)] show ?thesis by (auto simp: is_binary_def)
    qed
    have fb: "feasible (problem_val self) (a(U d := 0))" by (rule switch_off_feasible[OF f zero])
    have ud: "a (U d) = 1" by (rule binary_above[OF feasible_binary_U[OF f assms(3)] on])
    from assms(2) fb have "lp_value a (objective (problem_val self))
         \<le> lp_value (a(U d := 0)) (objective (problem_val self))"
      unfolding is_optimum_def by blast
    then show False
      unfolding objective_problem_val switch_off_objective[OF built_days_distinct[OF assms(1)] assms(3)] ud
      by simp
  qed
next
  assume "todays_val self a d \<noteq> []"
  from assms(2) have f: "feasible (problem_val self) a" by (simp add: is_optimum_def)
  from \<open>todays_val self a d \<noteq> []\<close> obtain k where k: "k \<in> set (todays_val self a d)"
    by (cases "todays_val self a d") auto
  from todays_val_mem[OF k] have kK: "k \<in> set (K self)" and kd: "day (entry self k) = d"
    and x: "a (X k) > 0.5" by simp_all
  have "a (X k) = 1" by (rule binary_above[OF feasible_binary_X[OF f kK] x])
  with feasible_activate[OF f kK] kd assms(3) have "1 \<le> a (U d)" by simp
  then show "a (U d) > 0.5" by simp
qed

lemma count_as_sum:
  "(\<Sum>d\<leftarrow>ds. if P d then 1 else 0) = int (length (filter P ds))"
  by (induction ds) simp_all

lemma days_used_val_count:
  "days_used_val self a = int (length (filter (\<lambda>d. a (U d) > 0.5) (days self)))"
  unfolding days_used_val_def by (rule count_as_sum)

lemma optimum_days_used:
  assumes "built self" "is_optimum (problem_val self) a"
  shows "days_used_val self a = int (length (schedule_val self a))"
proof -
  have "filter (\<lambda>d. a (U d) > 0.5) (days self) = filter (\<lambda>d. ordered_val self a d \<noteq> []) (days self)"
  proof (rule filter_cong[OF refl])
    fix d assume "d \<in> set (days self)"
    from optimum_day_flag[OF assms this]
    show "(a (U d) > 0.5) = (ordered_val self a d \<noteq> [])" by (simp only: ordered_val_empty)
  qed
  then show ?thesis by (simp add: days_used_val_count schedule_val_def)
qed

subsection \<open>The clashing catalogue\<close>

lemma clash_init: "init clash_occs [] None = Some clash_self"
  by code_simp

lemma clash_built: "built clash_self"
  using init_built[OF clash_init] by blast

text \<open>The two clashing occurrences: the problem built for them has no feasible assignment,
  so Infeasible is the status a correct engine reports.\<close>

lemma clash_infeasible: "\<not> feasible (problem_val clash_self) a"
proof
  assume f: "feasible (problem_val clash_self) a"
  have ea: "entry clash_self ''a'' = \<lparr>event = 1, day = 0, start = 540, end' = 600, loc = ''A''\<rparr>"
    and eb: "entry clash_self ''b'' = \<lparr>event = 2, day = 0, start = 540, end' = 600, loc = ''A''\<rparr>"
    by (simp_all add: entry_def clash_self_def clash_occs_def)
  have K2: "K clash_self = [''a'', ''b'']"
    and P2: "same_day_pairs clash_self = [(''a'', ''b''), (''b'', ''a'')]"
    and bm: "buffer_minutes clash_self = 60" "M clash_self = 1440"
    by (simp_all add: clash_self_def)
  have tv: "travel_val clash_self k m = 0" for k m
    by (simp add: travel_val_def clash_self_def)
  have ab: "(''a'', ''b'') \<in> set (same_day_pairs clash_self)"
    and ba: "(''b'', ''a'') \<in> set (same_day_pairs clash_self)" by (simp_all add: P2)
  have "1 \<in> set (events clash_self)" by (simp add: clash_self_def)
  from feasible_cover[OF f this] have xa: "a (X ''a'') = 1" by (simp add: K2 ea eb)
  have "2 \<in> set (events clash_self)" by (simp add: clash_self_def)
  from feasible_cover[OF f this] have xb: "a (X ''b'') = 1" by (simp add: K2 ea eb)
  from pair_directions[OF clash_built f ab] xa xb
  have one: "a (Y ''a'' ''b'') = 1 \<or> a (Y ''b'' ''a'') = 1" by blast
  from feasible_time[OF f ab] have "660 - 1440 * (1 - a (Y ''a'' ''b'')) \<le> 540"
    unfolding ea eb tv bm by simp
  moreover from feasible_time[OF f ba] have "660 - 1440 * (1 - a (Y ''b'' ''a'')) \<le> 540"
    unfolding ea eb tv bm by simp
  ultimately show False using one by auto
qed

subsection \<open>The engine call and variables with one name\<close>

text \<open>Two different ordering variables with one name.\<close>

lemma name_shared:
  "Y ''a'' ''b__c'' \<noteq> Y ''a__b'' ''c'' \<and> name (Y ''a'' ''b__c'') = name (Y ''a__b'' ''c'')"
  by simp

text \<open>When the problem built from a catalogue has two variables with one name and the
  engine refuses such problems, the run raises the engine's error.\<close>

lemma run_shared_names:
  assumes "init occs td b = Some self"
    and "build_problem self = Some prob"
    and "\<not> names_distinct prob"
    and "refuses_shared_names solve"
  shows "run occs td b solve = Inl PulpSolverError"
proof -
  from assms(1) have bs: "built self" using init_built by blast
  from assms(2) have p: "prob = problem_val self" using build_problem_Some[OF bs] by simp
  from assms(3,4) p have "solve (problem_val self) = Inl PulpSolverError"
    by (simp add: refuses_shared_names_def)
  from run_Inl[where solve = solve, OF assms(1) this] show ?thesis .
qed

lemma twin_solve_refuses: "refuses_shared_names twin_solve"
  by (simp add: refuses_shared_names_def twin_solve_def)

lemma twin_names:
  "case init twin_occs [] None of
     None \<Rightarrow> False
   | Some self \<Rightarrow> (case build_problem self of None \<Rightarrow> False | Some prob \<Rightarrow> \<not> names_distinct prob)"
  by code_simp

lemma twin_run: "run twin_occs [] None twin_solve = Inl PulpSolverError"
  by code_simp

section \<open>The claims\<close>

subsection \<open>C9: travel and buffer defaults\<close>

lemma ex_init: "init ex_occs ex_travel None = Some ex_self"
  by code_simp

lemma time_constraint_mem:
  assumes "(k, m) \<in> set (same_day_pairs self)"
  shows "GE (Const (start (entry self m)))
            (Sub (Const (end' (entry self k) + travel_val self k m + buffer_minutes self))
                 (Scale (M self) (Sub (Const 1) (Var (Y k m)))))
         \<in> set (constraints (problem_val self))"
proof -
  from assms have "GE (Const (start (entry self m)))
            (Sub (Const (end' (entry self k) + travel_val self k m + buffer_minutes self))
                 (Scale (M self) (Sub (Const 1) (Var (Y k m)))))
         \<in> set (time_val self)"
    unfolding time_val_def by force
  then show ?thesis by (simp add: problem_val_def)
qed

text \<open>
  C9. For two occurrences of the catalogue, the travel time the model uses is the entry of
  the travel matrix for the directed pair (location of the first, location of the second)
  when there is one, and 0 when there is none; the buffer is 60 minutes when the constructor
  gets no buffer argument, and the argument otherwise. These are the travel time and the
  buffer that stand in the pair's time-feasibility constraint of the built problem.
\<close>

theorem C9_travel_and_buffer_defaults:
  assumes "init occs td b = Some self"
    and "build_problem self = Some prob"
    and "getitem occs k = Some ok" and "getitem occs m = Some om"
  shows "(getitem td (loc ok, loc om) = None \<longrightarrow> travel_time self k m = Some 0) \<and>
         (\<forall>v. getitem td (loc ok, loc om) = Some v \<longrightarrow> travel_time self k m = Some v) \<and>
         (b = None \<longrightarrow> buffer_minutes self = 60) \<and>
         (\<forall>v. b = Some v \<longrightarrow> buffer_minutes self = v) \<and>
         (\<forall>t. (k, m) \<in> set (same_day_pairs self) \<and> travel_time self k m = Some t \<longrightarrow>
              GE (Const (start om))
                 (Sub (Const (end' ok + t + buffer_minutes self))
                      (Scale (M self) (Sub (Const 1) (Var (Y k m)))))
              \<in> set (constraints prob))"
proof -
  from assms(1) have bs: "built self" and oc: "occurrences self = occs" and tdm: "travel_distances self = td"
    and bf: "buffer_minutes self = (case b of None \<Rightarrow> 60 | Some v \<Rightarrow> v)"
    using init_built by blast+
  from assms(2) have p: "prob = problem_val self" using build_problem_Some[OF bs] by simp
  from assms(3,4) oc have e: "entry self k = ok" "entry self m = om" by (simp_all add: entry_def)
  from assms(3,4) oc tdm have tt: "travel_time self k m = Some (travel_val self k m)"
    by (simp add: travel_time_def travel_val_def e)
  have "(getitem td (loc ok, loc om) = None \<longrightarrow> travel_time self k m = Some 0) \<and>
         (\<forall>v. getitem td (loc ok, loc om) = Some v \<longrightarrow> travel_time self k m = Some v)"
    using assms(3,4) oc tdm by (auto simp: travel_time_def)
  moreover have "(b = None \<longrightarrow> buffer_minutes self = 60) \<and> (\<forall>v. b = Some v \<longrightarrow> buffer_minutes self = v)"
    using bf by auto
  moreover have "\<forall>t. (k, m) \<in> set (same_day_pairs self) \<and> travel_time self k m = Some t \<longrightarrow>
              GE (Const (start om))
                 (Sub (Const (end' ok + t + buffer_minutes self))
                      (Scale (M self) (Sub (Const 1) (Var (Y k m)))))
              \<in> set (constraints prob)"
    using time_constraint_mem[of k m self] unfolding p tt e by auto
  ultimately show ?thesis by blast
qed

theorem C9_witness:
  "init ex_occs ex_travel None = Some ex_self \<and>
   travel_time ex_self ''a'' ''b'' = Some 25 \<and>
   travel_time ex_self ''b'' ''a'' = Some 0 \<and>
   buffer_minutes ex_self = 60 \<and>
   (''a'', ''b'') \<in> set (same_day_pairs ex_self) \<and>
   (\<exists>prob. build_problem ex_self = Some prob \<and>
      GE (Const 700) (Sub (Const (600 + 25 + 60)) (Scale 1440 (Sub (Const 1) (Var (Y ''a'' ''b'')))))
        \<in> set (constraints prob))"
proof -
  have a: "getitem ex_occs ''a'' = Some \<lparr>event = 1, day = 0, start = 540, end' = 600, loc = ''A''\<rparr>"
    by (simp add: ex_occs_def)
  have b: "getitem ex_occs ''b'' = Some \<lparr>event = 2, day = 0, start = 700, end' = 760, loc = ''B''\<rparr>"
    by (simp add: ex_occs_def)
  have ab: "getitem ex_travel (''A'', ''B'') = Some 25" by (simp add: ex_travel_def)
  have ba: "getitem ex_travel (''B'', ''A'') = None" by (simp add: ex_travel_def)
  have pr: "(''a'', ''b'') \<in> set (same_day_pairs ex_self)" by (simp add: ex_self_def)
  have bp: "build_problem ex_self = Some (problem_val ex_self)"
    using build_problem_Some init_built[OF ex_init] by blast
  note t1 = C9_travel_and_buffer_defaults[OF ex_init bp a b]
  note t2 = C9_travel_and_buffer_defaults[OF ex_init bp b a]
  from t1 ab have 1: "travel_time ex_self ''a'' ''b'' = Some 25" by simp
  from t2 ba have 2: "travel_time ex_self ''b'' ''a'' = Some 0" by simp
  from t1 have 3: "buffer_minutes ex_self = 60" by simp
  have M: "M ex_self = 1440" by (simp add: ex_self_def)
  from t1 have "\<forall>t. (''a'', ''b'') \<in> set (same_day_pairs ex_self) \<and> travel_time ex_self ''a'' ''b'' = Some t \<longrightarrow>
              GE (Const (start \<lparr>event = 2, day = 0, start = 700, end' = 760, loc = ''B''\<rparr>))
                 (Sub (Const (end' \<lparr>event = 1, day = 0, start = 540, end' = 600, loc = ''A''\<rparr> + t + buffer_minutes ex_self))
                      (Scale (M ex_self) (Sub (Const 1) (Var (Y ''a'' ''b'')))))
              \<in> set (constraints (problem_val ex_self))" by blast
  with pr 1 have "GE (Const (start \<lparr>event = 2, day = 0, start = 700, end' = 760, loc = ''B''\<rparr>))
                 (Sub (Const (end' \<lparr>event = 1, day = 0, start = 540, end' = 600, loc = ''A''\<rparr> + 25 + buffer_minutes ex_self))
                      (Scale (M ex_self) (Sub (Const 1) (Var (Y ''a'' ''b'')))))
              \<in> set (constraints (problem_val ex_self))" by blast
  then have 4: "GE (Const 700) (Sub (Const (600 + 25 + 60)) (Scale 1440 (Sub (Const 1) (Var (Y ''a'' ''b'')))))
        \<in> set (constraints (problem_val ex_self))" unfolding 3 M by simp
  from ex_init 1 2 3 pr bp 4 show ?thesis by blast
qed

subsection \<open>C10: the entries of the schedule\<close>

lemma ex_run: "run ex_occs ex_travel None ex_solve = Inr ex_result"
  by code_simp

lemma ex_built: "built ex_self"
  using init_built[OF ex_init] by simp

lemma ex_problem: "build_problem ex_self = Some (problem_val ex_self)"
  by (rule build_problem_Some[OF ex_built])

lemma ex_solve_eq: "ex_solve (problem_val ex_self) = Inr (Optimal, ex_asg)"
  by (simp add: ex_solve_def)

text \<open>
  C10. Whatever the solving engine answers, optimize returns a result in which no day is a
  key of the schedule twice; a day is a key of the schedule if and only if some chosen
  occurrence falls on it; and the list stored under a day is not empty and holds exactly
  the chosen occurrences of that day, each once (it is a rearrangement of them).
\<close>

theorem C10_schedule_entries:
  assumes "init occs td b = Some self"
    and "build_problem self = Some prob"
    and "solve prob = Inr (st, a)"
  shows "\<exists>r. run occs td b solve = Inr r \<and>
     distinct (map fst (schedule r)) \<and>
     (\<forall>d. d \<in> set (map fst (schedule r)) \<longleftrightarrow> (\<exists>k \<in> set (chosen_occurrences r). on_day occs d k)) \<and>
     (\<forall>(d, ks) \<in> set (schedule r).
         ks \<noteq> [] \<and> mset ks = mset (filter (on_day occs d) (chosen_occurrences r)))"
proof -
  from assms(1) have bs: "built self" and oc: "occurrences self = occs" using init_built by blast+
  from assms(2) have p: "prob = problem_val self" using build_problem_Some[OF bs] by simp
  from assms(3) p have sv: "solve (problem_val self) = Inr (st, a)" by simp
  have "mset ks = mset (filter (on_day occs d) (chosen_val self a)) \<and> ks \<noteq> []"
    if "(d, ks) \<in> set (schedule_val self a)" for d ks
  proof -
    from schedule_val_entry[OF that] have ks: "ks = ordered_val self a d" and ne: "ks \<noteq> []" by blast+
    have "mset ks = mset (todays_val self a d)" unfolding ks by (rule mset_ordered_val)
    also have "\<dots> = mset (filter (on_day occs d) (chosen_val self a))"
      using todays_val_on_day[OF bs, of a d] oc by simp
    finally show ?thesis using ne by simp
  qed
  then have "\<forall>(d, ks) \<in> set (schedule_val self a).
         ks \<noteq> [] \<and> mset ks = mset (filter (on_day occs d) (chosen_val self a))"
    by blast
  moreover have "\<forall>d. d \<in> set (map fst (schedule_val self a)) \<longleftrightarrow> (\<exists>k \<in> set (chosen_val self a). on_day occs d k)"
    using schedule_val_keys_iff[OF bs, of _ a] oc by simp
  moreover have "distinct (map fst (schedule_val self a))" by (rule schedule_val_distinct[OF bs])
  ultimately show ?thesis unfolding run_Inr[where solve = solve, OF assms(1) sv] by simp
qed

theorem C10_witness:
  "init ex_occs ex_travel None = Some ex_self \<and>
   build_problem ex_self = Some (problem_val ex_self) \<and>
   ex_solve (problem_val ex_self) = Inr (Optimal, ex_asg) \<and>
   run ex_occs ex_travel None ex_solve = Inr ex_result \<and>
   (0, [''a'', ''b'']) \<in> set (schedule ex_result) \<and>
   (\<exists>k \<in> set (chosen_occurrences ex_result). on_day ex_occs 0 k) \<and>
   mset [''a'', ''b''] = mset (filter (on_day ex_occs 0) (chosen_occurrences ex_result))"
proof -
  have m: "(0, [''a'', ''b'']) \<in> set (schedule ex_result)" by (simp add: ex_result_def)
  from C10_schedule_entries[where solve = ex_solve, OF ex_init ex_problem ex_solve_eq]
  have key: "\<forall>d. d \<in> set (map fst (schedule ex_result)) \<longleftrightarrow> (\<exists>k \<in> set (chosen_occurrences ex_result). on_day ex_occs d k)"
    and ent: "\<forall>(d, ks) \<in> set (schedule ex_result).
         ks \<noteq> [] \<and> mset ks = mset (filter (on_day ex_occs d) (chosen_occurrences ex_result))"
    unfolding ex_run by simp_all
  from ent m have "mset [''a'', ''b''] = mset (filter (on_day ex_occs 0) (chosen_occurrences ex_result))"
    by blast
  moreover from key m have "\<exists>k \<in> set (chosen_occurrences ex_result). on_day ex_occs 0 k"
    by (metis (no_types, lifting) fst_conv image_eqI set_map)
  ultimately show ?thesis using ex_init ex_problem ex_solve_eq ex_run m by simp
qed

subsection \<open>C6 and C5: statuses other than Optimal, and malformed catalogues\<close>

text \<open>
  C6, as stated, fails: two events with one occurrence each, on the same day at the same
  time and place, have no feasible assignment; when the engine answers Infeasible and leaves
  every variable at 1, optimize still reads a schedule off those values and returns it with
  the status Infeasible.
\<close>

theorem C6_counterexample:
  "run clash_occs [] None clash_solve = Inr clash_result \<and>
   status clash_result = Infeasible \<and> schedule clash_result = [(0, [''a'', ''b''])]"
  by code_simp

text \<open>
  C6, amended. For every catalogue, travel matrix and buffer the constructor and the
  building of the problem raise nothing, and optimize returns a result exactly when the
  call of the solving engine returns an answer: when that call raises, optimize raises the
  same error and returns nothing. A returned result has the status the engine gave. Its
  schedule is read off the engine's values whatever that status is: it is empty exactly
  when no occurrence has a selection value above 0.5. The call raises, for one, on the
  catalogue \<open>twin_occs\<close>, whose keys give two ordering variables the name \<open>y_a__b__c\<close>, with
  an engine that refuses a problem in which two variables have one name.
\<close>

theorem C6_status_and_schedule:
  "\<exists>self prob.
     init occs td b = Some self \<and> build_problem self = Some prob \<and>
     (case solve prob of
        Inl e \<Rightarrow> run occs td b solve = Inl e
      | Inr (st, a) \<Rightarrow>
          (\<exists>r. run occs td b solve = Inr r \<and> status r = st \<and>
               chosen_occurrences r = filter (\<lambda>k. a (X k) > 0.5) (map fst occs) \<and>
               (schedule r = [] \<longleftrightarrow> chosen_occurrences r = [])))"
proof -
  obtain self where i: "init occs td b = Some self" using init_total by blast
  then have bs: "built self" and oc: "occurrences self = occs" using init_built by blast+
  from bs oc have k: "K self = map fst occs" by (simp add: built_def)
  show ?thesis
    using i build_problem_Some[OF bs] run_eq[OF i, of solve] schedule_val_empty[OF bs] k
    by (simp add: chosen_val_def split: sum.split)
qed

theorem C6_witness:
  "run clash_occs [] None clash_solve = Inr clash_result \<and>
   status clash_result = Infeasible \<and>
   schedule clash_result \<noteq> [] \<and> chosen_occurrences clash_result \<noteq> [] \<and>
   run twin_occs [] None twin_solve = Inl PulpSolverError"
proof -
  have r: "run clash_occs [] None clash_solve = Inr clash_result" by code_simp
  from C6_status_and_schedule[of clash_occs "[]" None clash_solve]
  have "schedule clash_result = [] \<longleftrightarrow> chosen_occurrences clash_result = []"
    unfolding r by (auto simp: clash_solve_def)
  moreover have "chosen_occurrences clash_result \<noteq> []" by (simp add: clash_result_def)
  moreover have "run twin_occs [] None twin_solve = Inl PulpSolverError"
  proof -
    from C6_status_and_schedule[of twin_occs "[]" None twin_solve]
    obtain self prob where s: "init twin_occs [] None = Some self"
      and p: "build_problem self = Some prob"
      and c: "case twin_solve prob of
                Inl e \<Rightarrow> run twin_occs [] None twin_solve = Inl e
              | Inr (st, a) \<Rightarrow>
                  (\<exists>r. run twin_occs [] None twin_solve = Inr r \<and> status r = st \<and>
                       chosen_occurrences r = filter (\<lambda>k. a (X k) > 0.5) (map fst twin_occs) \<and>
                       (schedule r = [] \<longleftrightarrow> chosen_occurrences r = []))"
      by blast
    from twin_names s p have "\<not> names_distinct prob" by simp
    then have "twin_solve prob = Inl PulpSolverError" by (simp add: twin_solve_def)
    with c show ?thesis by simp
  qed
  ultimately show ?thesis using r by (simp add: clash_result_def)
qed

text \<open>
  C5, as stated, fails: a catalogue whose only occurrence starts at 600 and ends at 540 is
  accepted; the problem is built, the engine is asked, and its answer is read and returned.
\<close>

theorem C5_counterexample:
  "list_ex (\<lambda>p. start (snd p) \<ge> end' (snd p)) bad_occs \<and>
   run bad_occs [] None bad_solve = Inr bad_result \<and> status bad_result = Optimal"
  by code_simp

text \<open>
  C5, amended. A catalogue in which some occurrence starts at or after its end is not
  rejected: the constructor accepts it, the problem is built from it, and the solving
  engine is called on that problem. What optimize then does is what the engine's call does:
  when the call raises, optimize raises that error; when it answers, the result read
  off the answer is returned. No error of the program's own is raised. The other malformed
  case cannot occur: the events are collected from the occurrences, so every event has a
  candidate.
\<close>

theorem C5_no_validation:
  assumes "list_ex (\<lambda>p. start (snd p) \<ge> end' (snd p)) occs"
  shows "\<exists>self prob.
     init occs td b = Some self \<and> build_problem self = Some prob \<and>
     (case solve prob of
        Inl e \<Rightarrow> run occs td b solve = Inl e
      | Inr (st, a) \<Rightarrow>
          (\<exists>r. read_solution self st a = Some r \<and> run occs td b solve = Inr r)) \<and>
     list_all (\<lambda>i. list_ex (\<lambda>p. event (snd p) = i) occs) (events self)"
proof -
  obtain self where i: "init occs td b = Some self" using init_total by blast
  then have bs: "built self" and oc: "occurrences self = occs" using init_built by blast+
  show ?thesis
    using i build_problem_Some[OF bs] run_eq[OF i, of solve] read_solution_Some[OF bs]
      events_have_candidates[OF bs] oc
    by (simp split: sum.split)
qed

theorem C5_witness:
  "list_ex (\<lambda>p. start (snd p) \<ge> end' (snd p)) bad_occs \<and>
   run bad_occs [] None bad_solve = Inr bad_result \<and>
   (\<exists>self. init bad_occs [] None = Some self \<and> events self = [1] \<and>
       read_solution self Optimal (\<lambda>v. 1) = Some bad_result)"
proof -
  have m: "list_ex (\<lambda>p. start (snd p) \<ge> end' (snd p)) bad_occs" by (simp add: bad_occs_def)
  have r: "run bad_occs [] None bad_solve = Inr bad_result" by code_simp
  from C5_no_validation[OF m, of "[]" None bad_solve]
  obtain self prob where s: "init bad_occs [] None = Some self"
    and c: "case bad_solve prob of
              Inl e \<Rightarrow> run bad_occs [] None bad_solve = Inl e
            | Inr (st, a) \<Rightarrow>
                (\<exists>r. read_solution self st a = Some r \<and> run bad_occs [] None bad_solve = Inr r)"
    by blast
  from c have "read_solution self Optimal (\<lambda>v. 1) = Some bad_result"
    unfolding r by (simp add: bad_solve_def)
  moreover from s have "events self = [1]" by (auto simp: init_Some bad_occs_def)
  ultimately show ?thesis using m r s by blast
qed

subsection \<open>C2 and C8: coverage and ordering directions\<close>

lemma ex_feasible: "feasible (problem_val ex_self) ex_asg"
  by code_simp

text \<open>
  C2. When the solving engine answers Optimal for the problem built from the catalogue,
  with an assignment that gives every variable 0 or 1 and satisfies every constraint, then
  for every event id that appears in the catalogue the returned list chosen_occurrences
  holds exactly one occurrence of that event.
\<close>

theorem C2_one_occurrence_per_event:
  assumes "init occs td b = Some self"
    and "build_problem self = Some prob"
    and "solve prob = Inr (Optimal, a)"
    and "feasible prob a"
    and "i \<in> set (map (event \<circ> snd) occs)"
  shows "\<exists>r. run occs td b solve = Inr r \<and> status r = Optimal \<and>
             length (filter (on_event occs i) (chosen_occurrences r)) = 1"
proof -
  from assms(1) have bs: "built self" and oc: "occurrences self = occs" using init_built by blast+
  from assms(2) have p: "prob = problem_val self" using build_problem_Some[OF bs] by simp
  from bs oc assms(5) have ev: "i \<in> set (events self)" by (simp add: built_def)
  from one_chosen_per_event[OF bs assms(4)[unfolded p] ev]
  have "length (filter (on_event occs i) (chosen_val self a)) = 1" by (simp add: oc)
  moreover from assms(3) p have sv: "solve (problem_val self) = Inr (Optimal, a)" by simp
  ultimately show ?thesis
    unfolding run_Inr[where solve = solve, OF assms(1) sv] by simp
qed

theorem C2_witness:
  "init ex_occs ex_travel None = Some ex_self \<and>
   feasible (problem_val ex_self) ex_asg \<and>
   run ex_occs ex_travel None ex_solve = Inr ex_result \<and>
   length (filter (on_event ex_occs 2) (chosen_occurrences ex_result)) = 1"
proof -
  have i: "2 \<in> set (map (event \<circ> snd) ex_occs)" by (simp add: ex_occs_def)
  from C2_one_occurrence_per_event[where solve = ex_solve, OF ex_init ex_problem ex_solve_eq ex_feasible i]
  have "length (filter (on_event ex_occs 2) (chosen_occurrences ex_result)) = 1"
    unfolding ex_run by simp
  with ex_init ex_feasible ex_run show ?thesis by simp
qed

text \<open>
  C8. Take an assignment that gives every variable 0 or 1 and satisfies every constraint of
  the model, and two different occurrences k and m of the catalogue on the same day. Then
  both ordered pairs (k, m) and (m, k) are same-day pairs, so both ordering variables exist.
  If both occurrences are chosen, exactly one of before[k,m], before[m,k] is 1 and the other
  is 0; if at most one is chosen, at most one direction is active (in fact both are 0); the
  two directions are never active together. The two one-direction constraints of the pair
  are generated for (k, m) exactly when k is the lexicographically smaller key, and for
  (m, k) exactly when m is.
\<close>

theorem C8_ordering_directions:
  assumes "init occs td b = Some self"
    and "build_problem self = Some prob"
    and "feasible prob a"
    and "getitem occs k = Some ek" and "getitem occs m = Some em"
    and "k \<noteq> m" and "day ek = day em"
  shows "(k, m) \<in> set (same_day_pairs self) \<and> (m, k) \<in> set (same_day_pairs self) \<and>
         (a (X k) = 1 \<and> a (X m) = 1 \<longrightarrow>
            (a (Y k m) = 1 \<and> a (Y m k) = 0) \<or> (a (Y k m) = 0 \<and> a (Y m k) = 1)) \<and>
         (\<not> (a (X k) = 1 \<and> a (X m) = 1) \<longrightarrow> a (Y k m) = 0 \<and> a (Y m k) = 0) \<and>
         \<not> (a (Y k m) = 1 \<and> a (Y m k) = 1) \<and>
         (\<exists>cps ds. canonical_pairs self = Some cps \<and> direction self = Some ds \<and>
            ((k, m) \<in> set cps \<longleftrightarrow> k < m) \<and> ((m, k) \<in> set cps \<longleftrightarrow> m < k) \<and>
            (GE (Add (Var (Y k m)) (Var (Y m k))) (Sub (Add (Var (X k)) (Var (X m))) (Const 1)) \<in> set ds
               \<longleftrightarrow> k < m) \<and>
            (LE (Add (Var (Y k m)) (Var (Y m k))) (Const 1) \<in> set ds \<longleftrightarrow> k < m) \<and>
            (GE (Add (Var (Y m k)) (Var (Y k m))) (Sub (Add (Var (X m)) (Var (X k))) (Const 1)) \<in> set ds
               \<longleftrightarrow> m < k) \<and>
            (LE (Add (Var (Y m k)) (Var (Y k m))) (Const 1) \<in> set ds \<longleftrightarrow> m < k))"
proof -
  from assms(1) have bs: "built self" and oc: "occurrences self = occs" using init_built by blast+
  from assms(2) have p: "prob = problem_val self" using build_problem_Some[OF bs] by simp
  from assms(3) have f: "feasible (problem_val self) a" by (simp add: p)
  have km: "(k, m) \<in> set (same_day_pairs self)"
    using pair_in_same_day_pairs[OF bs] assms(4-7) oc by simp
  have mk: "(m, k) \<in> set (same_day_pairs self)" using km by (rule built_pair_sym[OF bs])
  note pd = pair_directions[OF bs f km]
  have c1: "(k, m) \<in> set (canonical_val self) \<longleftrightarrow> k < m" by (rule canonical_val_iff[OF bs km])
  have c2: "(m, k) \<in> set (canonical_val self) \<longleftrightarrow> m < k" by (rule canonical_val_iff[OF bs mk])
  have "canonical_pairs self = Some (canonical_val self) \<and> direction self = Some (direction_val self) \<and>
            ((k, m) \<in> set (canonical_val self) \<longleftrightarrow> k < m) \<and> ((m, k) \<in> set (canonical_val self) \<longleftrightarrow> m < k) \<and>
            (GE (Add (Var (Y k m)) (Var (Y m k))) (Sub (Add (Var (X k)) (Var (X m))) (Const 1)) \<in> set (direction_val self)
               \<longleftrightarrow> k < m) \<and>
            (LE (Add (Var (Y k m)) (Var (Y m k))) (Const 1) \<in> set (direction_val self) \<longleftrightarrow> k < m) \<and>
            (GE (Add (Var (Y m k)) (Var (Y k m))) (Sub (Add (Var (X m)) (Var (X k))) (Const 1)) \<in> set (direction_val self)
               \<longleftrightarrow> m < k) \<and>
            (LE (Add (Var (Y m k)) (Var (Y k m))) (Const 1) \<in> set (direction_val self) \<longleftrightarrow> m < k)"
    unfolding direction_constraint_iff direction_constraint_iff2
    using canonical_pairs_Some[OF bs] direction_Some[OF bs] c1 c2 by simp
  then have "\<exists>cps ds. canonical_pairs self = Some cps \<and> direction self = Some ds \<and>
            ((k, m) \<in> set cps \<longleftrightarrow> k < m) \<and> ((m, k) \<in> set cps \<longleftrightarrow> m < k) \<and>
            (GE (Add (Var (Y k m)) (Var (Y m k))) (Sub (Add (Var (X k)) (Var (X m))) (Const 1)) \<in> set ds
               \<longleftrightarrow> k < m) \<and>
            (LE (Add (Var (Y k m)) (Var (Y m k))) (Const 1) \<in> set ds \<longleftrightarrow> k < m) \<and>
            (GE (Add (Var (Y m k)) (Var (Y k m))) (Sub (Add (Var (X m)) (Var (X k))) (Const 1)) \<in> set ds
               \<longleftrightarrow> m < k) \<and>
            (LE (Add (Var (Y m k)) (Var (Y k m))) (Const 1) \<in> set ds \<longleftrightarrow> m < k)"
    by blast
  with km mk pd show ?thesis by blast
qed

theorem C8_witness:
  "init ex_occs ex_travel None = Some ex_self \<and>
   feasible (problem_val ex_self) ex_asg \<and>
   ex_asg (X ''a'') = 1 \<and> ex_asg (X ''b'') = 1 \<and>
   (''a'', ''b'') \<in> set (same_day_pairs ex_self) \<and> (''b'', ''a'') \<in> set (same_day_pairs ex_self) \<and>
   ex_asg (Y ''a'' ''b'') = 1 \<and> ex_asg (Y ''b'' ''a'') = 0 \<and> ''a'' < ''b''"
proof -
  have a: "getitem ex_occs ''a'' = Some \<lparr>event = 1, day = 0, start = 540, end' = 600, loc = ''A''\<rparr>"
    by (simp add: ex_occs_def)
  have b: "getitem ex_occs ''b'' = Some \<lparr>event = 2, day = 0, start = 700, end' = 760, loc = ''B''\<rparr>"
    by (simp add: ex_occs_def)
  have ne: "''a'' \<noteq> ''b''" by simp
  have sd: "day \<lparr>event = 1, day = 0, start = 540, end' = 600, loc = ''A''\<rparr>
          = day \<lparr>event = 2, day = 0, start = 700, end' = 760, loc = ''B''\<rparr>" by simp
  have x: "ex_asg (X ''a'') = 1" "ex_asg (X ''b'') = 1" by (simp_all add: ex_asg_def)
  have lt: "''a'' < ''b''" by code_simp
  note t = C8_ordering_directions[OF ex_init ex_problem ex_feasible a b ne sd]
  from t have pairs: "(''a'', ''b'') \<in> set (same_day_pairs ex_self)" "(''b'', ''a'') \<in> set (same_day_pairs ex_self)"
    by blast+
  from t x have "(ex_asg (Y ''a'' ''b'') = 1 \<and> ex_asg (Y ''b'' ''a'') = 0) \<or>
                 (ex_asg (Y ''a'' ''b'') = 0 \<and> ex_asg (Y ''b'' ''a'') = 1)" by blast
  moreover have "ex_asg (Y ''a'' ''b'') = 1" by (simp add: ex_asg_def)
  ultimately have "ex_asg (Y ''a'' ''b'') = 1 \<and> ex_asg (Y ''b'' ''a'') = 0" by auto
  with ex_init ex_feasible x pairs lt show ?thesis by simp
qed

subsection \<open>C7: the extraction\<close>

text \<open>
  C7, as stated, fails for raw assignments: for the two clashing occurrences, with every
  variable at 1, both \<open>before[a,b]\<close> and \<open>before[b,a]\<close> are above the threshold, both
  predecessor counts are 1, the stable sort keeps the key order a, b, and b stands after a
  although \<open>before[b,a]\<close> is active.
\<close>

theorem C7_counterexample:
  "run clash_occs [] None clash_solve = Inr clash_result \<and>
   schedule clash_result = [(0, [''a'', ''b''])] \<and>
   (case clash_solve \<lparr>variables = [], constraints = [], objective = Const 0\<rparr> of
      Inl e \<Rightarrow> False
    | Inr (st, a) \<Rightarrow> before_active a ''a'' ''b'' \<and> before_active a ''b'' ''a'')"
  by code_simp

text \<open>
  C7, amended. For every raw solver assignment, the returned chosen list is the keys whose
  select value is above 0.5, in key order, and the returned schedule has, for every day
  with a chosen occurrence, that day's chosen occurrences sorted ascending by the number of
  other chosen occurrences of the day whose before-variable towards them is above 0.5. The
  sort is stable: occurrences with equal counts keep their key order. Every schedule[d] is a
  permutation of that day's chosen occurrences. It is consistent with every resolved before
  relation (no k stands after m when \<open>before[k,m]\<close> is active) whenever the active before
  relation among that day's chosen occurrences is transitive and asymmetric; for other raw
  assignments nothing is promised about consistency.
\<close>

theorem C7_extraction:
  assumes "init occs td b = Some self"
    and "distinct (map fst occs)"
    and "build_problem self = Some prob"
    and "solve prob = Inr (st, a)"
  shows "\<exists>r. run occs td b solve = Inr r \<and>
     chosen_occurrences r = chosen_spec a (map fst occs) \<and>
     schedule r = map (\<lambda>d. (d, order_spec occs a d)) (filter (\<lambda>d. todays_spec occs a d \<noteq> []) (days self)) \<and>
     (\<forall>d. mset (order_spec occs a d) = mset (todays_spec occs a d) \<and>
          sorted (map (predecessorCount_spec a (todays_spec occs a d)) (order_spec occs a d)) \<and>
          (\<forall>c. filter (\<lambda>k. predecessorCount_spec a (todays_spec occs a d) k = c) (order_spec occs a d)
              = filter (\<lambda>k. predecessorCount_spec a (todays_spec occs a d) k = c) (todays_spec occs a d)) \<and>
          (strict_order_on a (todays_spec occs a d) \<longrightarrow>
             (\<forall>i j. i < j \<and> j < length (order_spec occs a d) \<longrightarrow>
                \<not> before_active a (order_spec occs a d ! j) (order_spec occs a d ! i))))"
proof -
  from assms(1) have bs: "built self" and oc: "occurrences self = occs" using init_built by blast+
  from assms(3) have p: "prob = problem_val self" using build_problem_Some[OF bs] by simp
  from assms(2) have dk: "distinct (K self)" by (simp add: built_K[OF bs] oc)
  from assms(4) p have sv: "solve (problem_val self) = Inr (st, a)" by simp
  have 1: "chosen_val self a = chosen_spec a (map fst occs)"
    using chosen_val_spec[OF bs] oc by simp
  have 2: "schedule_val self a =
     map (\<lambda>d. (d, order_spec occs a d)) (filter (\<lambda>d. todays_spec occs a d \<noteq> []) (days self))"
    using schedule_val_spec[OF bs dk] oc by simp
  have 3: "\<forall>d. mset (order_spec occs a d) = mset (todays_spec occs a d) \<and>
          sorted (map (predecessorCount_spec a (todays_spec occs a d)) (order_spec occs a d)) \<and>
          (\<forall>c. filter (\<lambda>k. predecessorCount_spec a (todays_spec occs a d) k = c) (order_spec occs a d)
              = filter (\<lambda>k. predecessorCount_spec a (todays_spec occs a d) k = c) (todays_spec occs a d)) \<and>
          (strict_order_on a (todays_spec occs a d) \<longrightarrow>
             (\<forall>i j. i < j \<and> j < length (order_spec occs a d) \<longrightarrow>
                \<not> before_active a (order_spec occs a d ! j) (order_spec occs a d ! i)))"
    using order_spec_props[of occs a] order_spec_consistent[OF assms(2), of a] by blast
  show ?thesis
    unfolding run_Inr[where solve = solve, OF assms(1) sv] using 1 2 3 by simp
qed

theorem C7_witness:
  "init ex_occs ex_travel None = Some ex_self \<and> distinct (map fst ex_occs) \<and>
   run ex_occs ex_travel None ex_solve = Inr ex_result \<and>
   schedule ex_result = [(0, order_spec ex_occs ex_asg 0)] \<and>
   order_spec ex_occs ex_asg 0 = [''a'', ''b''] \<and>
   strict_order_on ex_asg (todays_spec ex_occs ex_asg 0) \<and>
   \<not> before_active ex_asg ''b'' ''a''"
proof -
  have d: "distinct (map fst ex_occs)" by (simp add: ex_occs_def)
  have days: "days ex_self = [0]" by (simp add: ex_self_def)
  have so: "strict_order_on ex_asg (todays_spec ex_occs ex_asg 0)" by code_simp
  have td: "todays_spec ex_occs ex_asg 0 \<noteq> []" by code_simp
  from C7_extraction[where solve = ex_solve, OF ex_init d ex_problem ex_solve_eq]
  have sch: "schedule ex_result = map (\<lambda>d. (d, order_spec ex_occs ex_asg d))
                (filter (\<lambda>d. todays_spec ex_occs ex_asg d \<noteq> []) (days ex_self))"
    and cons: "strict_order_on ex_asg (todays_spec ex_occs ex_asg 0) \<longrightarrow>
             (\<forall>i j. i < j \<and> j < length (order_spec ex_occs ex_asg 0) \<longrightarrow>
                \<not> before_active ex_asg (order_spec ex_occs ex_asg 0 ! j) (order_spec ex_occs ex_asg 0 ! i))"
    unfolding ex_run by simp_all
  from sch days td have sch0: "schedule ex_result = [(0, order_spec ex_occs ex_asg 0)]" by simp
  then have o: "order_spec ex_occs ex_asg 0 = [''a'', ''b'']" by (simp add: ex_result_def)
  from cons so have "\<forall>i j. i < j \<and> j < length (order_spec ex_occs ex_asg 0) \<longrightarrow>
                \<not> before_active ex_asg (order_spec ex_occs ex_asg 0 ! j) (order_spec ex_occs ex_asg 0 ! i)"
    by blast
  then have "(0::nat) < 1 \<and> 1 < length (order_spec ex_occs ex_asg 0) \<longrightarrow>
     \<not> before_active ex_asg (order_spec ex_occs ex_asg 0 ! 1) (order_spec ex_occs ex_asg 0 ! 0)"
    by blast
  then have "\<not> before_active ex_asg (order_spec ex_occs ex_asg 0 ! 1) (order_spec ex_occs ex_asg 0 ! 0)"
    unfolding o by simp
  then have "\<not> before_active ex_asg ''b'' ''a''" unfolding o by simp
  with ex_init d ex_run sch0 o so show ?thesis by simp
qed

subsection \<open>C1: non-overlap in list order\<close>

lemma zero_init: "init zero_occs zero_travel (Some 0) = Some zero_self"
  by code_simp

lemma zero_built: "built zero_self"
  using init_built[OF zero_init] by blast

lemma zero_run: "run zero_occs zero_travel (Some 0) zero_solve = Inr zero_result"
  by code_simp

lemma zero_feasible: "feasible (problem_val zero_self) zero_asg"
  by code_simp

lemma zero_objective: "lp_value zero_asg (obj_val zero_self) = 1000000"
  by code_simp

lemma zero_optimum: "is_optimum (problem_val zero_self) zero_asg"
  unfolding is_optimum_def
proof (intro conjI allI impI)
  show "feasible (problem_val zero_self) zero_asg" by (rule zero_feasible)
next
  fix b assume f: "feasible (problem_val zero_self) b"
  have ea: "entry zero_self ''a'' = \<lparr>event = 1, day = 0, start = 100, end' = 100, loc = ''A''\<rparr>"
    and eb: "entry zero_self ''b'' = \<lparr>event = 2, day = 0, start = 100, end' = 100, loc = ''B''\<rparr>"
    and ec: "entry zero_self ''c'' = \<lparr>event = 3, day = 0, start = 100, end' = 100, loc = ''C''\<rparr>"
    by (simp_all add: entry_def zero_self_def zero_occs_def)
  have K3: "K zero_self = [''a'', ''b'', ''c'']" and D1: "days zero_self = [0]"
    and P6: "same_day_pairs zero_self = [(''a'', ''b''), (''a'', ''c''), (''b'', ''a''),
                                    (''b'', ''c''), (''c'', ''a''), (''c'', ''b'')]"
    and T: "travel_distances zero_self = zero_travel"
    by (simp_all add: zero_self_def)
  have "1 \<in> set (events zero_self)" by (simp add: zero_self_def)
  from feasible_cover[OF f this] have x: "b (X ''a'') = 1"
    by (simp add: K3 ea eb ec)
  have "''a'' \<in> set (K zero_self)" "day (entry zero_self ''a'') \<in> set (days zero_self)"
    by (simp_all add: K3 D1 ea)
  from feasible_activate[OF f this] x have u: "1 \<le> b (U 0)" by (simp add: ea)
  have "(''a'', ''c'') \<in> set (same_day_pairs zero_self)" by (simp add: P6)
  from feasible_binary_Y[OF f this] have y: "0 \<le> b (Y ''a'' ''c'')" by (auto simp: is_binary_def)
  have "lp_value b (obj_val zero_self) = 1000000 * b (U 0) + 1000 * b (Y ''a'' ''c'')"
    unfolding lp_value_obj_val
    by (simp add: P6 D1 ea eb ec travel_val_def T zero_travel_def)
  with u y have "1000000 \<le> lp_value b (obj_val zero_self)" by simp
  then show "lp_value zero_asg (objective (problem_val zero_self))
        \<le> lp_value b (objective (problem_val zero_self))"
    unfolding objective_problem_val zero_objective .
qed

text \<open>
  C1, as stated for every catalogue, fails: three occurrences of three events on one day,
  each starting and ending at minute 100, at A, B and C, with 1000 minutes of travel from A
  to C and buffer 0. The assignment that orders a before b, b before c and c before a
  satisfies every constraint and is an optimum; every predecessor count is 1, so the day's
  list is a, b, c in key order; and c, later in the list than a, starts at 100, before
  100 + 1000 + 0.
\<close>

theorem C1_counterexample:
  "init zero_occs zero_travel (Some 0) = Some zero_self \<and>
   build_problem zero_self = Some (problem_val zero_self) \<and>
   zero_solve (problem_val zero_self) = Inr (Optimal, zero_asg) \<and>
   is_optimum (problem_val zero_self) zero_asg \<and>
   run zero_occs zero_travel (Some 0) zero_solve = Inr zero_result \<and>
   schedule zero_result = [(0, [''a'', ''b'', ''c''])] \<and>
   getitem zero_occs ''a'' = Some \<lparr>event = 1, day = 0, start = 100, end' = 100, loc = ''A''\<rparr> \<and>
   getitem zero_occs ''c'' = Some \<lparr>event = 3, day = 0, start = 100, end' = 100, loc = ''C''\<rparr> \<and>
   travel_time zero_self ''a'' ''c'' = Some 1000 \<and>
   \<not> (100 + 1000 + buffer_minutes zero_self \<le> (100::int))"
proof -
  have 1: "schedule zero_result = [(0, [''a'', ''b'', ''c''])]" by (simp add: zero_result_def)
  have 2: "getitem zero_occs ''a'' = Some \<lparr>event = 1, day = 0, start = 100, end' = 100, loc = ''A''\<rparr>"
    "getitem zero_occs ''c'' = Some \<lparr>event = 3, day = 0, start = 100, end' = 100, loc = ''C''\<rparr>"
    by (simp_all add: zero_occs_def)
  have 3: "travel_time zero_self ''a'' ''c'' = Some 1000" by code_simp
  have 4: "\<not> (100 + 1000 + buffer_minutes zero_self \<le> (100::int))" by (simp add: zero_self_def)
  have 5: "zero_solve (problem_val zero_self) = Inr (Optimal, zero_asg)" by (simp add: zero_solve_def)
  from zero_init build_problem_Some[OF zero_built] 5 zero_optimum zero_run 1 2 3 4
  show ?thesis by blast
qed

text \<open>
  C1, amended. Take a catalogue in which every occurrence ends after it starts (its keys
  are different, as in every dictionary), a travel matrix without negative entries and a
  buffer that is not negative, and let the solving engine answer Optimal for the problem built from them, with an
  assignment that gives every variable 0 or 1 and satisfies every constraint. Then for every
  day of the returned schedule and every two occurrences of that day's list, the one later
  in the list starts no earlier than the end of the earlier one plus the travel time from
  the earlier one's location to the later one's plus the buffer.
\<close>

theorem C1_non_overlap:
  assumes "init occs td b = Some self"
    and "distinct (map fst occs)"
    and "list_all (\<lambda>p. start (snd p) < end' (snd p)) occs"
    and "list_all (\<lambda>p. 0 \<le> snd p) td"
    and "0 \<le> buffer_minutes self"
    and "build_problem self = Some prob"
    and "solve prob = Inr (Optimal, a)"
    and "feasible prob a"
  shows "\<exists>r. run occs td b solve = Inr r \<and> status r = Optimal \<and>
           (\<forall>(d, ks) \<in> set (schedule r). \<forall>i j. i < j \<and> j < length ks \<longrightarrow>
              (\<exists>ei ej t. getitem occs (ks ! i) = Some ei \<and> getitem occs (ks ! j) = Some ej \<and>
                  travel_time self (ks ! i) (ks ! j) = Some t \<and>
                  end' ei + t + buffer_minutes self \<le> start ej))"
proof -
  from assms(1) have bs: "built self" and oc: "occurrences self = occs"
    and tdm: "travel_distances self = td" using init_built by blast+
  from assms(6) have p: "prob = problem_val self" using build_problem_Some[OF bs] by simp
  from assms(2) have dk: "distinct (K self)" by (simp add: built_K[OF bs] oc)
  from assms(7) p have sv: "solve (problem_val self) = Inr (Optimal, a)" by simp
  from assms(8) p have f: "feasible (problem_val self) a" by simp
  have "\<exists>ei ej t. getitem occs (ks ! i) = Some ei \<and> getitem occs (ks ! j) = Some ej \<and>
                  travel_time self (ks ! i) (ks ! j) = Some t \<and>
                  end' ei + t + buffer_minutes self \<le> start ej"
    if m: "(d, ks) \<in> set (schedule_val self a)" and ij: "i < j" "j < length ks" for d ks i j
  proof -
    from schedule_val_entry[OF m] have ks: "ks = ordered_val self a d" by blast
    from ordered_gap[OF bs dk f _ _ assms(5) ij(1), of d] assms(3,4) ij(2) oc tdm ks
    have iK: "ks ! i \<in> set (K self)" and jK: "ks ! j \<in> set (K self)"
      and gap: "end' (entry self (ks ! i)) + travel_val self (ks ! i) (ks ! j) + buffer_minutes self
             \<le> start (entry self (ks ! j))"
      by simp_all
    from built_entry[OF bs iK] built_entry[OF bs jK] travel_time_Some[OF bs iK jK] gap oc
    show ?thesis by simp
  qed
  then have "\<forall>(d, ks) \<in> set (schedule_val self a). \<forall>i j. i < j \<and> j < length ks \<longrightarrow>
              (\<exists>ei ej t. getitem occs (ks ! i) = Some ei \<and> getitem occs (ks ! j) = Some ej \<and>
                  travel_time self (ks ! i) (ks ! j) = Some t \<and>
                  end' ei + t + buffer_minutes self \<le> start ej)"
    by blast
  then show ?thesis unfolding run_Inr[where solve = solve, OF assms(1) sv] by simp
qed

theorem C1_witness:
  "init ex_occs ex_travel None = Some ex_self \<and>
   distinct (map fst ex_occs) \<and>
   list_all (\<lambda>p. start (snd p) < end' (snd p)) ex_occs \<and>
   list_all (\<lambda>p. 0 \<le> snd p) ex_travel \<and>
   feasible (problem_val ex_self) ex_asg \<and>
   run ex_occs ex_travel None ex_solve = Inr ex_result \<and>
   (0, [''a'', ''b'']) \<in> set (schedule ex_result) \<and>
   travel_time ex_self ''a'' ''b'' = Some 25 \<and>
   (600::int) + 25 + 60 \<le> 700"
proof -
  have d: "distinct (map fst ex_occs)" by (simp add: ex_occs_def)
  have w: "list_all (\<lambda>p. start (snd p) < end' (snd p)) ex_occs" by (simp add: ex_occs_def)
  have t: "list_all (\<lambda>p. 0 \<le> snd p) ex_travel" by (simp add: ex_travel_def)
  have bf: "0 \<le> buffer_minutes ex_self" by (simp add: ex_self_def)
  have m: "(0, [''a'', ''b'']) \<in> set (schedule ex_result)" by (simp add: ex_result_def)
  have ij: "(0::nat) < 1" "1 < length [''a'', ''b'']" by simp_all
  have a: "getitem ex_occs ''a'' = Some \<lparr>event = 1, day = 0, start = 540, end' = 600, loc = ''A''\<rparr>"
    by (simp add: ex_occs_def)
  have b: "getitem ex_occs ''b'' = Some \<lparr>event = 2, day = 0, start = 700, end' = 760, loc = ''B''\<rparr>"
    by (simp add: ex_occs_def)
  have tt: "travel_time ex_self ''a'' ''b'' = Some 25" by code_simp
  from C1_non_overlap[where solve = ex_solve, OF ex_init d w t bf ex_problem ex_solve_eq ex_feasible]
  have "\<forall>(d, ks) \<in> set (schedule ex_result). \<forall>i j. i < j \<and> j < length ks \<longrightarrow>
              (\<exists>ei ej t. getitem ex_occs (ks ! i) = Some ei \<and> getitem ex_occs (ks ! j) = Some ej \<and>
                  travel_time ex_self (ks ! i) (ks ! j) = Some t \<and>
                  end' ei + t + buffer_minutes ex_self \<le> start ej)"
    unfolding ex_run by simp
  with m have "\<forall>i j. i < j \<and> j < length [''a'', ''b''] \<longrightarrow>
              (\<exists>ei ej t. getitem ex_occs ([''a'', ''b''] ! i) = Some ei \<and> getitem ex_occs ([''a'', ''b''] ! j) = Some ej \<and>
                  travel_time ex_self ([''a'', ''b''] ! i) ([''a'', ''b''] ! j) = Some t \<and>
                  end' ei + t + buffer_minutes ex_self \<le> start ej)"
    by blast
  then have "(0::nat) < 1 \<and> 1 < length [''a'', ''b''] \<longrightarrow>
              (\<exists>ei ej t. getitem ex_occs ([''a'', ''b''] ! 0) = Some ei \<and> getitem ex_occs ([''a'', ''b''] ! 1) = Some ej \<and>
                  travel_time ex_self ([''a'', ''b''] ! 0) ([''a'', ''b''] ! 1) = Some t \<and>
                  end' ei + t + buffer_minutes ex_self \<le> start ej)"
    by blast
  then obtain ei ej tv where "getitem ex_occs ''a'' = Some ei" "getitem ex_occs ''b'' = Some ej"
    "travel_time ex_self ''a'' ''b'' = Some tv" "end' ei + tv + buffer_minutes ex_self \<le> start ej"
    by auto
  with a b tt have "(600::int) + 25 + 60 \<le> 700" by (simp add: ex_self_def)
  with ex_init d w t ex_feasible ex_run m tt show ?thesis by simp
qed

subsection \<open>C3: days_used\<close>

lemma one_init: "init one_occs [] None = Some one_self"
  by code_simp

lemma one_built: "built one_self"
  using init_built[OF one_init] by blast

lemma one_problem: "build_problem one_self = Some (problem_val one_self)"
  by (rule build_problem_Some[OF one_built])

lemma one_run: "run one_occs [] None one_solve = Inr one_result"
  by code_simp

lemma one_feasible: "feasible (problem_val one_self) one_asg"
  by code_simp

lemma one_optimum: "is_optimum (problem_val one_self) one_asg"
  unfolding is_optimum_def
proof (intro conjI allI impI)
  show "feasible (problem_val one_self) one_asg" by (rule one_feasible)
next
  fix b assume f: "feasible (problem_val one_self) b"
  have e: "entry one_self ''a'' = \<lparr>event = 1, day = 0, start = 540, end' = 600, loc = ''A''\<rparr>"
    by (simp add: entry_def one_self_def one_occs_def)
  have K1: "K one_self = [''a'']" and D1: "days one_self = [0]" by (simp_all add: one_self_def)
  have "1 \<in> set (events one_self)" by (simp add: one_self_def)
  from feasible_cover[OF f this] have x: "b (X ''a'') = 1"
    by (simp add: K1 e)
  have "''a'' \<in> set (K one_self)" "day (entry one_self ''a'') \<in> set (days one_self)"
    by (simp_all add: K1 D1 e)
  from feasible_activate[OF f this] x have u: "1 \<le> b (U 0)" by (simp add: e)
  have "lp_value one_asg (obj_val one_self) = 1000000"
    unfolding lp_value_obj_val by (simp add: one_self_def one_asg_def)
  moreover have "lp_value b (obj_val one_self) = 1000000 * b (U 0)"
    unfolding lp_value_obj_val by (simp add: one_self_def)
  ultimately show "lp_value one_asg (objective (problem_val one_self))
        \<le> lp_value b (objective (problem_val one_self))"
    unfolding objective_problem_val using u by simp
qed

lemma one_solve_eq: "one_solve (problem_val one_self) = Inr (Optimal, one_asg)"
  by (simp add: one_solve_def)

text \<open>
  C3, as stated for every result, fails: for the two clashing occurrences the engine's
  status is Infeasible and its values are not constrained; when it leaves the day variable
  at 1 and the selections at 0, days_used is 1 while the schedule has no day at all.
\<close>

theorem C3_counterexample:
  "run clash_occs [] None idle_solve = Inr idle_result \<and>
   days_used idle_result = 1 \<and> schedule idle_result = []"
  by code_simp

text \<open>
  C3, amended. When the solving engine answers Optimal for the problem built from the
  catalogue, with an optimum of that problem (an assignment of 0 or 1 to every variable
  that satisfies every constraint and has the least objective among such assignments),
  the returned days_used equals the number of distinct days that are keys of the returned
  schedule.
\<close>

theorem C3_days_used_optimal:
  assumes "init occs td b = Some self"
    and "build_problem self = Some prob"
    and "solve prob = Inr (Optimal, a)"
    and "is_optimum prob a"
  shows "\<exists>r. run occs td b solve = Inr r \<and> status r = Optimal \<and>
             days_used r = int (card (set (map fst (schedule r)))) \<and>
             days_used r = int (length (schedule r))"
proof -
  from assms(1) have bs: "built self" using init_built by blast
  from assms(2) have p: "prob = problem_val self" using build_problem_Some[OF bs] by simp
  from assms(3) p have sv: "solve (problem_val self) = Inr (Optimal, a)" by simp
  from assms(4) p have o: "is_optimum (problem_val self) a" by simp
  have "card (set (map fst (schedule_val self a))) = length (map fst (schedule_val self a))"
    by (rule distinct_card[OF schedule_val_distinct[OF bs]])
  then have "int (card (set (map fst (schedule_val self a)))) = int (length (schedule_val self a))"
    by simp
  with optimum_days_used[OF bs o] show ?thesis
    unfolding run_Inr[where solve = solve, OF assms(1) sv] by simp
qed

theorem C3_witness:
  "init one_occs [] None = Some one_self \<and>
   is_optimum (problem_val one_self) one_asg \<and>
   run one_occs [] None one_solve = Inr one_result \<and>
   days_used one_result = 1 \<and> length (schedule one_result) = 1"
proof -
  from C3_days_used_optimal[where solve = one_solve, OF one_init one_problem one_solve_eq one_optimum]
  have "days_used one_result = int (length (schedule one_result))"
    unfolding one_run by simp
  moreover have "length (schedule one_result) = 1" by (simp add: one_result_def)
  ultimately show ?thesis using one_init one_optimum one_run by simp
qed

subsection \<open>C4: the big-M constant\<close>

lemma late_init: "init late_occs late_travel None = Some late_self"
  by code_simp

lemma late_built: "built late_self"
  using init_built[OF late_init] by blast

lemma late_infeasible: "\<not> feasible (problem_val late_self) a"
proof
  assume f: "feasible (problem_val late_self) a"
  have p: "(''late'', ''early'') \<in> set (same_day_pairs late_self)" by (simp add: late_self_def)
  have el: "entry late_self ''late'' = \<lparr>event = 1, day = 0, start = 1380, end' = 1410, loc = ''A''\<rparr>"
    and ee: "entry late_self ''early'' = \<lparr>event = 2, day = 0, start = 0, end' = 20, loc = ''B''\<rparr>"
    by (simp_all add: entry_def late_self_def late_occs_def)
  have tv: "travel_val late_self ''late'' ''early'' = 25"
    unfolding travel_val_def el ee by (simp add: late_self_def late_travel_def)
  have bm: "buffer_minutes late_self = 60" "M late_self = 1440" by (simp_all add: late_self_def)
  from feasible_time[OF f p] have "1495 - 1440 * (1 - a (Y ''late'' ''early'')) \<le> 0"
    unfolding el ee tv bm by simp
  moreover from feasible_binary_Y[OF f p] have "a (Y ''late'' ''early'') = 0 \<or> a (Y ''late'' ''early'') = 1"
    by (simp add: is_binary_def)
  ultimately show False by auto
qed

text \<open>
  C4 does not hold of the code. On one day, an occurrence from 23:00 to 23:30 at A and one
  from 00:00 to 00:20 at B, with 25 minutes of travel from A to B and the default buffer,
  can be visited in the order early, late (20 + 0 + 60 is at most 1380). For the pair
  (late, early) the gap requirement minus M is 1410 + 25 + 60 - 1440 = 55, which is above
  the start 0 of the early one: with \<open>before[late,early] = 0\<close> the big-M constraint is
  violated, not vacuous, and the problem has no feasible assignment at all.
\<close>

theorem C4_big_M_too_small:
  "init late_occs late_travel None = Some late_self \<and>
   time_feasibility late_self =
     Some [GE (Const 0) (Sub (Const 1495) (Scale 1440 (Sub (Const 1) (Var (Y ''late'' ''early''))))),
           GE (Const 1380) (Sub (Const 80) (Scale 1440 (Sub (Const 1) (Var (Y ''early'' ''late'')))))] \<and>
   \<not> satisfied (\<lambda>v. 0)
        (GE (Const 0) (Sub (Const 1495) (Scale 1440 (Sub (Const 1) (Var (Y ''late'' ''early'')))))) \<and>
   M late_self < 1410 + 25 + 60 - 0 \<and>
   (\<exists>prob. build_problem late_self = Some prob \<and> (\<forall>a. \<not> feasible prob a))"
proof -
  have 1: "time_feasibility late_self =
     Some [GE (Const 0) (Sub (Const 1495) (Scale 1440 (Sub (Const 1) (Var (Y ''late'' ''early''))))),
           GE (Const 1380) (Sub (Const 80) (Scale 1440 (Sub (Const 1) (Var (Y ''early'' ''late'')))))]"
    by code_simp
  have 2: "\<not> satisfied (\<lambda>v. 0)
        (GE (Const 0) (Sub (Const 1495) (Scale 1440 (Sub (Const 1) (Var (Y ''late'' ''early''))))))"
    by simp
  have 3: "M late_self < 1410 + 25 + 60 - 0" by (simp add: late_self_def)
  have 4: "\<exists>prob. build_problem late_self = Some prob \<and> (\<forall>a. \<not> feasible prob a)"
    using build_problem_Some[OF late_built] late_infeasible by blast
  from late_init 1 2 3 4 show ?thesis by blast
qed

end
